theory Spec2Isabelle
  imports Complex_Main "HOL-Library.Multiset"
begin

section \<open>Routine card generator: constants and data\<close>

text \<open>
  A shallow embedding of \<^verbatim>\<open>apps/api/scripts/generate-card-pdf.py\<close>.

  Every coordinate of the script is a Python float obtained from the constants below by
  additions, subtractions and products with small integers. All of them are multiples of
  one half far below \<open>2 ^ 53\<close>, so the float arithmetic is exact and the numbers are
  modelled as rationals.
\<close>

definition inch :: rat where
  "inch = 72"

definition PAGE_WIDTH :: rat where
  "PAGE_WIDTH = 612"

definition PAGE_HEIGHT :: rat where
  "PAGE_HEIGHT = 792"

definition MARGIN :: rat where
  "MARGIN = 0.25 * inch"

definition MARKER_RADIUS :: rat where
  "MARKER_RADIUS = 4"

record layout_config =
  cols :: nat
  rows :: nat
  width :: rat
  height :: rat

definition LAYOUTS :: "string \<Rightarrow> layout_config option" where
  "LAYOUTS =
     [''quarter'' \<mapsto> \<lparr>cols = 2, rows = 2, width = 4.25 * inch, height = 5.5 * inch\<rparr>,
      ''half'' \<mapsto> \<lparr>cols = 1, rows = 2, width = 8.5 * inch, height = 5.5 * inch\<rparr>,
      ''full'' \<mapsto> \<lparr>cols = 1, rows = 1, width = 8.5 * inch, height = 11 * inch\<rparr>]"

definition CHECKBOX_SIZE :: rat where
  "CHECKBOX_SIZE = 18"

definition NUMBER_BOX_WIDTH :: rat where
  "NUMBER_BOX_WIDTH = 72"

definition NUMBER_BOX_HEIGHT :: rat where
  "NUMBER_BOX_HEIGHT = 24"

definition SCALE_BOX_SIZE :: rat where
  "SCALE_BOX_SIZE = 24"

definition LINE_HEIGHT :: rat where
  "LINE_HEIGHT = 18"

text \<open>The two inks: reportlab's \<open>black\<close> and the script's \<open>GRAY = Color(0.7, 0.7, 0.7)\<close>.\<close>

datatype color = black | GRAY

text \<open>
  The canvas is an append-only stream of calls. Each constructor is one method of
  reportlab's canvas with the arguments the script passes; \<open>fill\<close> and \<open>stroke\<close> flags
  are booleans, \<open>setDash(6, 3)\<close> is \<open>SetDash [6, 3]\<close> and \<open>setDash()\<close> is \<open>SetDash []\<close>.
\<close>

datatype cmd =
    SetFillColor color
  | SetStrokeColor color
  | SetLineWidth rat
  | SetFont string nat
  | SetDash "nat list"
  | Circle rat rat rat bool bool
  | Rect rat rat rat rat bool bool
  | Line rat rat rat rat
  | DrawString rat rat string
  | DrawCentredString rat rat string
  | DrawRightString rat rat string
  | ShowPage
  | Save

datatype target = File string | Buffer

record canvas =
  dest :: target
  ops :: "cmd list"

definition Canvas :: "target \<Rightarrow> canvas" where
  "Canvas t = \<lparr>dest = t, ops = []\<rparr>"

definition emits :: "cmd list \<Rightarrow> canvas \<Rightarrow> canvas" where
  "emits ks cv = cv\<lparr>ops := ops cv @ ks\<rparr>"

text \<open>
  An item and a routine are JSON objects read with \<open>d[key]\<close> (raises \<open>KeyError\<close> when the
  key is absent) or \<open>d.get(key, default)\<close>; every field is therefore optional in the model.
\<close>

record item =
  item_type :: "string option"
  item_name :: "string option"
  item_order :: "int option"
  item_unit :: "string option"
  item_hasNotes :: "bool option"

record routine =
  r_name :: "string option"
  r_items :: "item list option"
  r_version :: "int option"

datatype error = KeyError string | SystemExit int

text \<open>
  A call either returns a value or raises; the exception is paired with the calls the
  canvas has received by then, since the canvas object outlives the raise.
\<close>

type_synonym 'a outcome = "(error \<times> cmd list) + 'a"

section \<open>Layout selector\<close>

definition suggest_layout :: "int \<Rightarrow> string" where
  "suggest_layout item_count =
     (if item_count \<le> 8 then ''quarter''
      else if item_count \<le> 15 then ''half''
      else ''full'')"

section \<open>Card renderer\<close>

record renderer =
  self_c :: canvas
  self_x :: rat
  self_y :: rat
  self_width :: rat
  self_height :: rat
  self_routine :: routine
  self_version :: int
  self_current_y :: rat

definition CardRenderer ::
  "canvas \<Rightarrow> rat \<Rightarrow> rat \<Rightarrow> rat \<Rightarrow> rat \<Rightarrow> routine \<Rightarrow> int \<Rightarrow> renderer" where
  "CardRenderer cv x y w h r v =
     \<lparr>self_c = cv, self_x = x, self_y = y, self_width = w, self_height = h,
      self_routine = r, self_version = v, self_current_y = y + h - MARGIN\<rparr>"

definition draw_alignment_markers :: "renderer \<Rightarrow> renderer" where
  "draw_alignment_markers self =
     (let positions =
            [(self_x self + MARGIN, self_y self + self_height self - MARGIN),
             (self_x self + self_width self - MARGIN, self_y self + self_height self - MARGIN),
             (self_x self + MARGIN, self_y self + MARGIN),
             (self_x self + self_width self - MARGIN, self_y self + MARGIN)]
      in self\<lparr>self_c :=
           emits (SetFillColor black #
                  map (\<lambda>(px, py). Circle px py MARKER_RADIUS True False) positions)
             (self_c self)\<rparr>)"

definition draw_header :: "renderer \<Rightarrow> renderer outcome" where
  "draw_header self =
     (let c1 = emits [SetFont ''Helvetica-Bold'' 14, SetFillColor black] (self_c self);
          content_x = self_x self + MARGIN + MARKER_RADIUS * 2;
          y1 = self_current_y self - 14
      in case r_name (self_routine self) of
           None \<Rightarrow> Inl (KeyError ''name'', ops c1)
         | Some nm \<Rightarrow>
             (let date_x = self_x self + self_width self - MARGIN - 80;
                  y2 = y1 - 10;
                  c2 = emits
                         [DrawString content_x y1 nm,
                          SetFont ''Helvetica'' 10,
                          DrawString date_x (y1 + 2) ''___/___/___'',
                          SetStrokeColor GRAY,
                          SetLineWidth 0.5,
                          Line content_x y2
                            (self_x self + self_width self - MARGIN - MARKER_RADIUS * 2) y2,
                          SetStrokeColor black] c1
              in Inr (self\<lparr>self_c := c2, self_current_y := y2 - 15\<rparr>)))"

definition draw_checkbox_item :: "renderer \<Rightarrow> rat \<Rightarrow> item \<Rightarrow> renderer outcome" where
  "draw_checkbox_item self x it =
     (let cy = self_current_y self;
          c1 = emits
                 [SetStrokeColor black,
                  SetLineWidth 1.5,
                  Rect x (cy - CHECKBOX_SIZE + 4) CHECKBOX_SIZE CHECKBOX_SIZE False True,
                  SetFont ''Helvetica'' 11,
                  SetFillColor black] (self_c self)
      in case item_name it of
           None \<Rightarrow> Inl (KeyError ''name'', ops c1)
         | Some nm \<Rightarrow>
             Inr (self\<lparr>self_c := emits [DrawString (x + CHECKBOX_SIZE + 8) (cy - 8) nm] c1,
                       self_current_y := cy - (CHECKBOX_SIZE + 8)\<rparr>))"

definition draw_number_item :: "renderer \<Rightarrow> rat \<Rightarrow> item \<Rightarrow> renderer outcome" where
  "draw_number_item self x it =
     (let cy = self_current_y self;
          c1 = emits [SetFont ''Helvetica'' 11, SetFillColor black] (self_c self)
      in case item_name it of
           None \<Rightarrow> Inl (KeyError ''name'', ops c1)
         | Some nm \<Rightarrow>
             (let y1 = cy - 18;
                  c2 = emits
                         [DrawString x (cy - 8) nm,
                          SetStrokeColor black,
                          SetLineWidth 1,
                          Rect x (y1 - NUMBER_BOX_HEIGHT) NUMBER_BOX_WIDTH NUMBER_BOX_HEIGHT
                            False True] c1;
                  c3 = (case item_unit it of
                          None \<Rightarrow> c2
                        | Some unit \<Rightarrow>
                            if unit \<noteq> [] then
                              emits
                                [SetFont ''Helvetica'' 9,
                                 SetFillColor GRAY,
                                 DrawString (x + NUMBER_BOX_WIDTH + 6)
                                   (y1 - NUMBER_BOX_HEIGHT + 6) unit,
                                 SetFillColor black] c2
                            else c2)
              in Inr (self\<lparr>self_c := c3,
                           self_current_y := y1 - (NUMBER_BOX_HEIGHT + 12)\<rparr>)))"

text \<open>Python's \<open>str\<close> on an integer, for the scale labels and the version stamp.\<close>

fun str_nat :: "nat \<Rightarrow> string" where
  "str_nat n =
     (if n < 10 then [char_of (48 + n)]
      else str_nat (n div 10) @ [char_of (48 + n mod 10)])"

declare str_nat.simps [simp del]

definition str_int :: "int \<Rightarrow> string" where
  "str_int i = (if i < 0 then CHR ''-'' # str_nat (nat (- i)) else str_nat (nat i))"

definition draw_scale_item :: "renderer \<Rightarrow> rat \<Rightarrow> rat \<Rightarrow> item \<Rightarrow> renderer outcome" where
  "draw_scale_item self x content_width it =
     (let cy = self_current_y self;
          c1 = emits [SetFont ''Helvetica'' 11, SetFillColor black] (self_c self)
      in case item_name it of
           None \<Rightarrow> Inl (KeyError ''name'', ops c1)
         | Some nm \<Rightarrow>
             (let y1 = cy - 22;
                  c2 = emits
                         [DrawString x (cy - 8) nm,
                          SetStrokeColor black,
                          SetLineWidth 1,
                          SetFont ''Helvetica'' 9] c1;
                  c3 = emits
                         (concat (map (\<lambda>i.
                            (let box_x = x + (of_nat i * (SCALE_BOX_SIZE + 6))
                             in [Rect box_x (y1 - SCALE_BOX_SIZE) SCALE_BOX_SIZE SCALE_BOX_SIZE
                                   False True,
                                 SetFillColor GRAY,
                                 DrawCentredString (box_x + SCALE_BOX_SIZE / 2) (y1 + 3)
                                   (str_int (int i + 1)),
                                 SetFillColor black])) [0..<5])) c2;
                  y2 = y1 - (SCALE_BOX_SIZE + 8)
              in if item_hasNotes it = Some True then
                   Inr (self\<lparr>self_c :=
                              emits
                                [SetFont ''Helvetica'' 9,
                                 SetFillColor GRAY,
                                 DrawString x (y2 - 8) ''Notes:'',
                                 SetFillColor black,
                                 SetStrokeColor GRAY,
                                 SetLineWidth 0.5,
                                 Line (x + 35) (y2 - 10) (x + content_width) (y2 - 10),
                                 SetStrokeColor black] c3,
                            self_current_y := y2 - 16\<rparr>)
                 else Inr (self\<lparr>self_c := c3, self_current_y := y2\<rparr>)))"

text \<open>The body of \<open>for _ in range(2)\<close> in \<open>_draw_text_item\<close>, run \<open>n\<close> times.\<close>

fun text_lines :: "nat \<Rightarrow> rat \<Rightarrow> rat \<Rightarrow> renderer \<Rightarrow> renderer" where
  "text_lines 0 x content_width self = self"
| "text_lines (Suc n) x content_width self =
     text_lines n x content_width
       (self\<lparr>self_c :=
               emits [Line x (self_current_y self - 4) (x + content_width)
                        (self_current_y self - 4)] (self_c self),
             self_current_y := self_current_y self - LINE_HEIGHT\<rparr>)"

definition draw_text_item :: "renderer \<Rightarrow> rat \<Rightarrow> rat \<Rightarrow> item \<Rightarrow> renderer outcome" where
  "draw_text_item self x content_width it =
     (let cy = self_current_y self;
          c1 = emits [SetFont ''Helvetica'' 11, SetFillColor black] (self_c self)
      in case item_name it of
           None \<Rightarrow> Inl (KeyError ''name'', ops c1)
         | Some nm \<Rightarrow>
             (let c2 = emits
                         [DrawString x (cy - 8) nm,
                          SetStrokeColor GRAY,
                          SetLineWidth 0.5] c1;
                  s2 = text_lines 2 x content_width
                         (self\<lparr>self_c := c2, self_current_y := cy - 18\<rparr>)
              in Inr (s2\<lparr>self_c := emits [SetStrokeColor black] (self_c s2)\<rparr>)))"

text \<open>
  The body of the loop of \<open>_draw_items\<close> after the overflow check: read the item's
  \<open>type\<close> and dispatch; an unrecognised type falls through the \<open>if\<close>/\<open>elif\<close> chain.
\<close>

definition draw_item :: "rat \<Rightarrow> rat \<Rightarrow> renderer \<Rightarrow> item \<Rightarrow> renderer outcome" where
  "draw_item content_x content_width self it =
     (case item_type it of
        None \<Rightarrow> Inl (KeyError ''type'', ops (self_c self))
      | Some ty \<Rightarrow>
          if ty = ''checkbox'' then draw_checkbox_item self content_x it
          else if ty = ''number'' then draw_number_item self content_x it
          else if ty = ''scale'' then draw_scale_item self content_x content_width it
          else if ty = ''text'' then draw_text_item self content_x content_width it
          else Inr self)"

fun items_loop :: "rat \<Rightarrow> rat \<Rightarrow> rat \<Rightarrow> item list \<Rightarrow> renderer \<Rightarrow> renderer outcome" where
  "items_loop content_x content_width min_y [] self = Inr self"
| "items_loop content_x content_width min_y (it # rest) self =
     (if self_current_y self < min_y then Inr self
      else case draw_item content_x content_width self it of
             Inl e \<Rightarrow> Inl e
           | Inr self' \<Rightarrow> items_loop content_x content_width min_y rest self')"

definition order_key :: "item \<Rightarrow> int" where
  "order_key it = (case item_order it of None \<Rightarrow> 0 | Some k \<Rightarrow> k)"

definition routine_items :: "routine \<Rightarrow> item list" where
  "routine_items r = (case r_items r of None \<Rightarrow> [] | Some its \<Rightarrow> its)"

text \<open>Python's \<open>sorted\<close> is a stable sort by the key, as \<^const>\<open>sort_key\<close> is.\<close>

definition sorted_items :: "routine \<Rightarrow> item list" where
  "sorted_items r = sort_key order_key (routine_items r)"

definition draw_items :: "renderer \<Rightarrow> renderer outcome" where
  "draw_items self =
     (let content_x = self_x self + MARGIN + MARKER_RADIUS * 2;
          content_width = self_width self - (2 * MARGIN) - (MARKER_RADIUS * 4);
          min_y = self_y self + MARGIN + 20
      in items_loop content_x content_width min_y (sorted_items (self_routine self)) self)"

definition draw_version :: "renderer \<Rightarrow> renderer" where
  "draw_version self =
     self\<lparr>self_c :=
       emits
         [SetFont ''Helvetica'' 8,
          SetFillColor GRAY,
          DrawRightString (self_x self + self_width self - MARGIN - MARKER_RADIUS * 2)
            (self_y self + MARGIN + MARKER_RADIUS) (CHR ''v'' # str_int (self_version self)),
          SetFillColor black] (self_c self)\<rparr>"

definition draw :: "renderer \<Rightarrow> renderer outcome" where
  "draw self =
     (case draw_header (draw_alignment_markers self) of
        Inl e \<Rightarrow> Inl e
      | Inr s1 \<Rightarrow>
          (case draw_items s1 of
             Inl e \<Rightarrow> Inl e
           | Inr s2 \<Rightarrow> Inr (draw_version s2)))"

section \<open>Page compositor and pagination driver\<close>

definition draw_cut_guides :: "canvas \<Rightarrow> layout_config \<Rightarrow> canvas" where
  "draw_cut_guides c layout_config =
     emits
       ([SetStrokeColor GRAY, SetLineWidth 0.5, SetDash [6, 3]] @
        map (\<lambda>col. Line (of_nat col * width layout_config) 0
                     (of_nat col * width layout_config) PAGE_HEIGHT)
          [1..<cols layout_config] @
        map (\<lambda>row. Line 0 (PAGE_HEIGHT - of_nat row * height layout_config)
                     PAGE_WIDTH (PAGE_HEIGHT - of_nat row * height layout_config))
          [1..<rows layout_config] @
        [SetDash []]) c"

definition showPage :: "canvas \<Rightarrow> canvas" where
  "showPage c = emits [ShowPage] c"

definition save :: "canvas \<Rightarrow> canvas" where
  "save c = emits [Save] c"

definition routine_version :: "routine \<Rightarrow> int" where
  "routine_version r = (case r_version r of None \<Rightarrow> 1 | Some v \<Rightarrow> v)"

text \<open>
  The three nested loops of \<open>generate_pdf\<close>. The state is the canvas and \<open>card_index\<close>;
  \<open>break\<close> leaves the column loop only, so the row loop goes on to its next row.
\<close>

fun cols_loop ::
  "layout_config \<Rightarrow> routine \<Rightarrow> int \<Rightarrow> nat \<Rightarrow> nat list \<Rightarrow> canvas \<times> int \<Rightarrow>
   (canvas \<times> int) outcome" where
  "cols_loop layout_config r quantity row [] st = Inr st"
| "cols_loop layout_config r quantity row (col # rest) (c, card_index) =
     (if card_index \<ge> quantity then Inr (c, card_index)
      else
        (let x = of_nat col * width layout_config;
             y = PAGE_HEIGHT - (of_nat row + 1) * height layout_config;
             rd = CardRenderer c x y (width layout_config) (height layout_config) r
                    (routine_version r)
         in case draw rd of
              Inl e \<Rightarrow> Inl e
            | Inr rd' \<Rightarrow>
                cols_loop layout_config r quantity row rest (self_c rd', card_index + 1)))"

fun rows_loop ::
  "layout_config \<Rightarrow> routine \<Rightarrow> int \<Rightarrow> nat list \<Rightarrow> canvas \<times> int \<Rightarrow>
   (canvas \<times> int) outcome" where
  "rows_loop layout_config r quantity [] st = Inr st"
| "rows_loop layout_config r quantity (row # rest) st =
     (case cols_loop layout_config r quantity row [0..<cols layout_config] st of
        Inl e \<Rightarrow> Inl e
      | Inr st' \<Rightarrow> rows_loop layout_config r quantity rest st')"

definition draw_page ::
  "layout_config \<Rightarrow> routine \<Rightarrow> int \<Rightarrow> nat \<Rightarrow> canvas \<times> int \<Rightarrow> (canvas \<times> int) outcome" where
  "draw_page layout_config r quantity page st =
     (let c1 = (if page > 0 then showPage (fst st) else fst st);
          c2 = draw_cut_guides c1 layout_config
      in rows_loop layout_config r quantity [0..<rows layout_config] (c2, snd st))"

fun pages_loop ::
  "layout_config \<Rightarrow> routine \<Rightarrow> int \<Rightarrow> nat list \<Rightarrow> canvas \<times> int \<Rightarrow>
   (canvas \<times> int) outcome" where
  "pages_loop layout_config r quantity [] st = Inr st"
| "pages_loop layout_config r quantity (page # rest) st =
     (case draw_page layout_config r quantity page st of
        Inl e \<Rightarrow> Inl e
      | Inr st' \<Rightarrow> pages_loop layout_config r quantity rest st')"

record summary =
  s_layout :: string
  s_cards_per_page :: int
  s_pages_generated :: int
  s_cards_generated :: int

text \<open>
  \<open>generate_pdf\<close> returns the buffer's bytes or the summary dictionary. The encoding of
  the document is reportlab's; the bytes are represented by the calls they encode.
\<close>

datatype gen_result = DocumentBytes "cmd list" | Summary summary

text \<open>\<open>if output_path:\<close> is Python truthiness: \<open>None\<close> and the empty string are false.\<close>

definition truthy :: "string option \<Rightarrow> bool" where
  "truthy p = (case p of None \<Rightarrow> False | Some s \<Rightarrow> s \<noteq> [])"

definition generate_pdf ::
  "routine \<Rightarrow> string \<Rightarrow> int \<Rightarrow> string option \<Rightarrow> (canvas \<times> gen_result) outcome" where
  "generate_pdf r layout quantity output_path =
     (case LAYOUTS layout of
        None \<Rightarrow> Inl (KeyError layout, [])
      | Some layout_config \<Rightarrow>
          (let cards_per_page = int (cols layout_config) * int (rows layout_config);
               total_pages = (quantity + cards_per_page - 1) div cards_per_page;
               c = (if truthy output_path then Canvas (File (the output_path))
                    else Canvas Buffer)
           in case pages_loop layout_config r quantity [0..<nat total_pages] (c, 0) of
                Inl e \<Rightarrow> Inl e
              | Inr (c', card_index) \<Rightarrow>
                  (let c'' = save c'
                   in if \<not> truthy output_path then Inr (c'', DocumentBytes (ops c''))
                      else Inr (c'',
                             Summary \<lparr>s_layout = layout,
                                      s_cards_per_page = cards_per_page,
                                      s_pages_generated = total_pages,
                                      s_cards_generated = quantity\<rparr>))))"

section \<open>Command line entry point\<close>



section \<open>Observations on the call stream\<close>

text \<open>
  The definitions of this section are not part of the script. They read properties off
  the stream of canvas calls, or name classes of inputs, so that the statements about
  the script can be written down.
\<close>

text \<open>
  The ink in effect after a list of calls, starting from ink \<open>col\<close>: the colour of the
  last \<open>setFillColor\<close> (\<open>setStrokeColor\<close>); reportlab starts every page with black.
\<close>

fun fill_after :: "color \<Rightarrow> cmd list \<Rightarrow> color" where
  "fill_after col [] = col"
| "fill_after col (SetFillColor k # ks) = fill_after k ks"
| "fill_after col (ShowPage # ks) = fill_after black ks"
| "fill_after col (_ # ks) = fill_after col ks"

fun stroke_after :: "color \<Rightarrow> cmd list \<Rightarrow> color" where
  "stroke_after col [] = col"
| "stroke_after col (SetStrokeColor k # ks) = stroke_after k ks"
| "stroke_after col (ShowPage # ks) = stroke_after black ks"
| "stroke_after col (_ # ks) = stroke_after col ks"

definition fill_color :: "canvas \<Rightarrow> color" where
  "fill_color cv = fill_after black (ops cv)"

definition stroke_color :: "canvas \<Rightarrow> color" where
  "stroke_color cv = stroke_after black (ops cv)"

text \<open>The four item kinds of the \<open>if\<close>/\<open>elif\<close> chain in \<open>_draw_items\<close>.\<close>

definition recognized :: "string \<Rightarrow> bool" where
  "recognized ty \<longleftrightarrow> ty \<in> set [''checkbox'', ''number'', ''scale'', ''text'']"

text \<open>An item whose \<open>type\<close> is present and is none of the four kinds.\<close>

definition unknown_kind :: "item \<Rightarrow> bool" where
  "unknown_kind it = (case item_type it of None \<Rightarrow> False | Some ty \<Rightarrow> \<not> recognized ty)"

text \<open>
  An item the renderer can draw without a \<open>KeyError\<close>: its \<open>type\<close> is present, and so
  is its \<open>name\<close> when the type is one of the four kinds. A routine is valid when its name
  is present and all its items are.
\<close>

definition valid_item :: "item \<Rightarrow> bool" where
  "valid_item it =
     (case item_type it of None \<Rightarrow> False | Some ty \<Rightarrow> recognized ty \<longrightarrow> item_name it \<noteq> None)"

definition valid_routine :: "routine \<Rightarrow> bool" where
  "valid_routine r \<longleftrightarrow> r_name r \<noteq> None \<and> list_all valid_item (routine_items r)"

text \<open>The distance by which drawing an item lowers \<open>current_y\<close>, by kind.\<close>

definition advance :: "item \<Rightarrow> rat" where
  "advance it =
     (case item_type it of
        None \<Rightarrow> 0
      | Some ty \<Rightarrow>
          if ty = ''checkbox'' then CHECKBOX_SIZE + 8
          else if ty = ''number'' then 18 + (NUMBER_BOX_HEIGHT + 12)
          else if ty = ''scale'' then
            22 + (SCALE_BOX_SIZE + 8) + (if item_hasNotes it = Some True then 16 else 0)
          else if ty = ''text'' then 18 + 2 * LINE_HEIGHT
          else 0)"

text \<open>
  Classes of calls: those only the page compositor and \<open>save\<close> issue; the version
  stamp (the only \<open>drawRightString\<close> of the script); and those the header and the items
  are made of.
\<close>

fun page_level :: "cmd \<Rightarrow> bool" where
  "page_level (SetDash _) = True"
| "page_level ShowPage = True"
| "page_level Save = True"
| "page_level _ = False"

fun is_stamp :: "cmd \<Rightarrow> bool" where
  "is_stamp (DrawRightString _ _ _) = True"
| "is_stamp _ = False"

fun item_cmd :: "cmd \<Rightarrow> bool" where
  "item_cmd (SetDash _) = False"
| "item_cmd ShowPage = False"
| "item_cmd Save = False"
| "item_cmd (DrawRightString _ _ _) = False"
| "item_cmd (Circle _ _ _ _ _) = False"
| "item_cmd _ = True"

text \<open>
  \<open>CardRenderer.draw\<close> ends with exactly one \<open>drawRightString\<close> and nothing else issues
  one, so the cards drawn on a canvas are counted by these calls. A saved canvas with
  content has one page more than it has page breaks.
\<close>

definition cards_drawn :: "cmd list \<Rightarrow> nat" where
  "cards_drawn ks = length (filter is_stamp ks)"

definition page_breaks :: "cmd list \<Rightarrow> nat" where
  "page_breaks ks = length (filter (\<lambda>k. k = ShowPage) ks)"

definition pages_emitted :: "cmd list \<Rightarrow> nat" where
  "pages_emitted ks = Suc (page_breaks ks)"

text \<open>The calls a renderer method has left on the canvas, whether it returned or raised.\<close>

definition issued :: "renderer outcome \<Rightarrow> cmd list" where
  "issued res = (case res of Inl (e, k) \<Rightarrow> k | Inr s \<Rightarrow> ops (self_c s))"

text \<open>The same for \<open>generate_pdf\<close>, with the exception raised, if any.\<close>

definition calls :: "(canvas \<times> gen_result) outcome \<Rightarrow> error option \<times> cmd list" where
  "calls res = (case res of Inl (e, k) \<Rightarrow> (Some e, k) | Inr (c, _) \<Rightarrow> (None, ops c))"

text \<open>The calls of \<open>draw_cut_guides\<close>, and the page break that precedes every page but the first.\<close>

definition cut_guide_cmds :: "layout_config \<Rightarrow> cmd list" where
  "cut_guide_cmds cfg =
     [SetStrokeColor GRAY, SetLineWidth 0.5, SetDash [6, 3]] @
     map (\<lambda>col. Line (of_nat col * width cfg) 0 (of_nat col * width cfg) PAGE_HEIGHT)
       [1..<cols cfg] @
     map (\<lambda>row. Line 0 (PAGE_HEIGHT - of_nat row * height cfg)
                  PAGE_WIDTH (PAGE_HEIGHT - of_nat row * height cfg))
       [1..<rows cfg] @
     [SetDash []]"

definition page_start :: "nat \<Rightarrow> cmd list" where
  "page_start page = (if page > 0 then [ShowPage] else [])"

text \<open>The same loop state on a canvas that writes to another target.\<close>

definition retarget :: "target \<Rightarrow> canvas \<times> int \<Rightarrow> canvas \<times> int" where
  "retarget d st = ((fst st)\<lparr>dest := d\<rparr>, snd st)"

text \<open>The routine of the specification's end-to-end scenario.\<close>

definition workout :: routine where
  "workout =
     \<lparr>r_name = Some ''Workout'',
      r_items = Some
        [\<lparr>item_type = Some ''checkbox'', item_name = Some ''Pushups'', item_order = Some 0,
          item_unit = None, item_hasNotes = None\<rparr>,
         \<lparr>item_type = Some ''number'', item_name = Some ''Weight'', item_order = Some 1,
          item_unit = Some ''kg'', item_hasNotes = None\<rparr>],
      r_version = Some 2\<rparr>"

text \<open>What a renderer method leaves behind: the exception and the calls, or the calls and the cursor.\<close>

definition rendered :: "renderer outcome \<Rightarrow> (error \<times> cmd list) + (cmd list \<times> rat)" where
  "rendered res = map_sum id (\<lambda>s. (ops (self_c s), self_current_y s)) res"

text \<open>A routine without its items of unknown kind.\<close>

definition known_items :: "routine \<Rightarrow> routine" where
  "known_items r = r\<lparr>r_items := Some (filter (\<lambda>it. \<not> unknown_kind it) (routine_items r))\<rparr>"

text \<open>Sample inputs: an item that uses gray ink, a quarter-page card, an item of unknown kind.\<close>

definition weight_item :: item where
  "weight_item =
     \<lparr>item_type = Some ''number'', item_name = Some ''Weight'', item_order = Some 1,
      item_unit = Some ''kg'', item_hasNotes = None\<rparr>"

definition quarter_card :: "routine \<Rightarrow> renderer" where
  "quarter_card r = CardRenderer (Canvas Buffer) 0 396 306 396 r (routine_version r)"

definition photo_item :: item where
  "photo_item =
     \<lparr>item_type = Some ''photo'', item_name = None, item_order = Some 1,
      item_unit = None, item_hasNotes = None\<rparr>"

definition workout_photo :: routine where
  "workout_photo = workout\<lparr>r_items := Some (photo_item # routine_items workout)\<rparr>"

text \<open>
  Dispatching on every item of a list in turn, without the overflow check; and the number
  of items the loop of \<open>_draw_items\<close> reaches before its \<open>break\<close>, from the cursor \<open>cy\<close> and the
  floor \<open>my\<close>.
\<close>

fun draw_each :: "rat \<Rightarrow> rat \<Rightarrow> item list \<Rightarrow> renderer \<Rightarrow> renderer outcome" where
  "draw_each cx cw [] s = Inr s"
| "draw_each cx cw (it # rest) s =
     (case draw_item cx cw s it of Inl e \<Rightarrow> Inl e | Inr s' \<Rightarrow> draw_each cx cw rest s')"

fun items_reached :: "rat \<Rightarrow> rat \<Rightarrow> item list \<Rightarrow> nat" where
  "items_reached my cy [] = 0"
| "items_reached my cy (it # rest) =
     (if cy < my then 0 else Suc (items_reached my (cy - advance it) rest))"

text \<open>
  The room between the cursor and the reserved bottom region (card bottom + margin + 20pt).
  Each of the four kinds sets the label font (Helvetica 11) once and nothing else does, so
  these calls count the items drawn.
\<close>

definition content_height :: "renderer \<Rightarrow> rat" where
  "content_height s = self_current_y s - (self_y s + MARGIN + 20)"

definition labels_drawn :: "cmd list \<Rightarrow> nat" where
  "labels_drawn ks = length (filter (\<lambda>k. k = SetFont ''Helvetica'' 11) ks)"

text \<open>Sample routines: items that overflow a quarter-page card, and items out of order.\<close>

definition mk_item :: "string \<Rightarrow> string \<Rightarrow> int \<Rightarrow> item" where
  "mk_item ty nm k =
     \<lparr>item_type = Some ty, item_name = Some nm, item_order = Some k,
      item_unit = None, item_hasNotes = None\<rparr>"



definition shuffled :: routine where
  "shuffled =
     \<lparr>r_name = Some ''Morning'',
      r_items = Some
        [mk_item ''checkbox'' ''Stretch'' 2,
         (mk_item ''checkbox'' ''Warmup'' 0)\<lparr>item_order := None\<rparr>,
         mk_item ''checkbox'' ''Pushups'' 0],
      r_version = Some 1\<rparr>"

definition in_order :: "item list" where
  "in_order =
     [(mk_item ''checkbox'' ''Warmup'' 0)\<lparr>item_order := None\<rparr>,
      mk_item ''checkbox'' ''Pushups'' 0,
      mk_item ''checkbox'' ''Stretch'' 2]"

text \<open>The calls on the canvas after a page of the driver, whether it returned or raised.\<close>

definition page_issued :: "(canvas \<times> int) outcome \<Rightarrow> cmd list" where
  "page_issued res = (case res of Inl (e, k) \<Rightarrow> k | Inr (c, i) \<Rightarrow> ops c)"





text \<open>
  The texts of the \<open>drawString\<close> calls of a call stream, in the order of the calls; and
  the renderer of a quarter-page card when its header has been drawn.
\<close>

fun strings_drawn :: "cmd list \<Rightarrow> string list" where
  "strings_drawn [] = []"
| "strings_drawn (DrawString _ _ t # ks) = t # strings_drawn ks"
| "strings_drawn (_ # ks) = strings_drawn ks"

definition after_header :: "routine \<Rightarrow> renderer" where
  "after_header r = projr (draw_header (draw_alignment_markers (quarter_card r)))"

section \<open>Auxiliary lemmas\<close>

subsection \<open>Canvas and ink\<close>

lemma ops_emits [simp]: "ops (emits ks cv) = ops cv @ ks"
  by (simp add: emits_def)

lemma dest_emits [simp]: "dest (emits ks cv) = dest cv"
  by (simp add: emits_def)

lemma fill_after_append: "fill_after col (xs @ ys) = fill_after (fill_after col xs) ys"
  by (induction col xs rule: fill_after.induct) simp_all

lemma stroke_after_append: "stroke_after col (xs @ ys) = stroke_after (stroke_after col xs) ys"
  by (induction col xs rule: stroke_after.induct) simp_all

subsection \<open>One item\<close>

lemma upt_5: "[0..<5] = [0, 1, 2, 3, 4]"
  by (simp add: upt_rec)

lemma text_lines_2:
  "text_lines 2 x w s = text_lines (Suc (Suc 0)) x w s"
  by (simp add: numeral_2_eq_2)

lemmas item_defs = draw_item_def draw_checkbox_item_def draw_number_item_def
  draw_scale_item_def draw_text_item_def

lemma draw_item_colors:
  assumes "draw_item cx cw self it = Inr self'" and "item_type it = Some ty" and "recognized ty"
  shows "fill_color (self_c self') = black \<and> stroke_color (self_c self') = black"
  using assms
  by (auto simp: item_defs recognized_def fill_color_def stroke_color_def Let_def upt_5 text_lines_2
      fill_after_append stroke_after_append split: option.splits if_splits)

lemma draw_item_unknown:
  "item_type it = Some ty \<Longrightarrow> \<not> recognized ty \<Longrightarrow> draw_item cx cw self it = Inr self"
  by (simp add: draw_item_def recognized_def)

lemma draw_item_cursor:
  "draw_item cx cw self it = Inr self' \<Longrightarrow> self_current_y self' = self_current_y self - advance it"
  by (auto simp: item_defs advance_def Let_def text_lines_2 LINE_HEIGHT_def
      split: option.splits if_splits)

lemma advance_nonneg: "0 \<le> advance it"
  by (simp add: advance_def CHECKBOX_SIZE_def NUMBER_BOX_HEIGHT_def SCALE_BOX_SIZE_def
      LINE_HEIGHT_def split: option.splits)

lemma items_loop_below:
  "self_current_y self < my \<Longrightarrow> items_loop cx cw my its self = Inr self"
  by (cases its) simp_all

lemma draw_item_unknown_kind:
  "unknown_kind it \<Longrightarrow> draw_item cx cw self it = Inr self"
  by (auto simp: unknown_kind_def draw_item_def recognized_def split: option.splits)

lemma items_loop_skip_unknown:
  "items_loop cx cw my (filter (\<lambda>it. \<not> unknown_kind it) its) self = items_loop cx cw my its self"
proof (induction its arbitrary: self)
  case Nil
  show ?case by simp
next
  case (Cons it its)
  show ?case
  proof (cases "unknown_kind it")
    case True
    then show ?thesis
      using Cons.IH [of self] by (simp add: draw_item_unknown_kind items_loop_below)
  next
    case False
    then show ?thesis
      using Cons.IH by (simp split: sum.splits)
  qed
qed

subsection \<open>The routine field and the canvas target do not steer an item\<close>

lemma draw_item_routine:
  "draw_item cx cw (s\<lparr>self_routine := r\<rparr>) it =
   map_sum id (\<lambda>s. s\<lparr>self_routine := r\<rparr>) (draw_item cx cw s it)"
  by (auto simp: item_defs Let_def text_lines_2 split: option.splits)

lemma items_loop_routine:
  "items_loop cx cw my its (s\<lparr>self_routine := r\<rparr>) =
   map_sum id (\<lambda>s. s\<lparr>self_routine := r\<rparr>) (items_loop cx cw my its s)"
proof (induction its arbitrary: s)
  case Nil
  show ?case by simp
next
  case (Cons it its)
  show ?case
    by (cases "draw_item cx cw s it") (simp_all add: draw_item_routine Cons.IH)
qed

lemma emits_dest: "emits ks (cv\<lparr>dest := d\<rparr>) = (emits ks cv)\<lparr>dest := d\<rparr>"
  by (simp add: emits_def)

lemma draw_item_dest:
  "draw_item cx cw (s\<lparr>self_c := (self_c s)\<lparr>dest := d\<rparr>\<rparr>) it =
   map_sum id (\<lambda>s. s\<lparr>self_c := (self_c s)\<lparr>dest := d\<rparr>\<rparr>) (draw_item cx cw s it)"
  by (auto simp: item_defs Let_def text_lines_2 emits_dest split: option.splits)

lemma items_loop_dest:
  "items_loop cx cw my its (s\<lparr>self_c := (self_c s)\<lparr>dest := d\<rparr>\<rparr>) =
   map_sum id (\<lambda>s. s\<lparr>self_c := (self_c s)\<lparr>dest := d\<rparr>\<rparr>) (items_loop cx cw my its s)"
proof (induction its arbitrary: s)
  case Nil
  show ?case by simp
next
  case (Cons it its)
  show ?case
    by (cases "draw_item cx cw s it") (simp_all add: draw_item_dest Cons.IH)
qed

lemma draw_dest:
  "draw (s\<lparr>self_c := (self_c s)\<lparr>dest := d\<rparr>\<rparr>) =
   map_sum id (\<lambda>s. s\<lparr>self_c := (self_c s)\<lparr>dest := d\<rparr>\<rparr>) (draw s)"
proof -
  let ?R = "\<lambda>s. s\<lparr>self_c := (self_c s)\<lparr>dest := d\<rparr>\<rparr>"
  have m: "draw_alignment_markers (?R s) = ?R (draw_alignment_markers s)"
    by (simp add: draw_alignment_markers_def Let_def emits_dest)
  have h: "draw_header (?R t) = map_sum id ?R (draw_header t)" for t
    by (simp add: draw_header_def Let_def emits_dest split: option.splits)
  have i: "draw_items (?R t) = map_sum id ?R (draw_items t)" for t
    by (simp add: draw_items_def Let_def items_loop_dest)
  have v: "draw_version (?R t) = ?R (draw_version t)" for t
    by (simp add: draw_version_def emits_dest)
  show ?thesis
    unfolding draw_def m h
    by (cases "draw_header (draw_alignment_markers s)")
       (auto simp: i v split: sum.splits)
qed

subsection \<open>What the renderer appends to the canvas\<close>

lemma issued_simps [simp]:
  "issued (Inl (e, k)) = k" "issued (Inr s) = ops (self_c s)"
  by (simp_all add: issued_def)

lemma item_cmd_filter:
  "list_all item_cmd ks \<Longrightarrow> filter page_level ks = [] \<and> filter is_stamp ks = []"
proof (induction ks)
  case Nil
  show ?case by simp
next
  case (Cons k ks)
  then show ?case by (cases k) simp_all
qed

lemma draw_item_issued:
  "\<exists>ext. issued (draw_item cx cw s it) = ops (self_c s) @ ext \<and> list_all item_cmd ext"
  by (auto simp: item_defs Let_def text_lines_2 upt_5 split: option.splits)

lemma items_loop_issued:
  "\<exists>ext. issued (items_loop cx cw my its s) = ops (self_c s) @ ext \<and> list_all item_cmd ext"
proof (induction its arbitrary: s)
  case Nil
  show ?case by simp
next
  case (Cons it its)
  obtain e1 where e1: "issued (draw_item cx cw s it) = ops (self_c s) @ e1" "list_all item_cmd e1"
    using draw_item_issued by blast
  show ?case
  proof (cases "draw_item cx cw s it")
    case (Inl a)
    then show ?thesis using e1 by (cases a) auto
  next
    case (Inr s')
    obtain e2 where e2: "issued (items_loop cx cw my its s') = ops (self_c s') @ e2"
      "list_all item_cmd e2"
      using Cons.IH by blast
    show ?thesis
    proof (cases "self_current_y s < my")
      case True
      then show ?thesis by simp
    next
      case False
      have "issued (items_loop cx cw my (it # its) s) = ops (self_c s) @ (e1 @ e2)"
        using Inr e1 e2 False by simp
      moreover have "list_all item_cmd (e1 @ e2)"
        using e1 e2 by simp
      ultimately show ?thesis by blast
    qed
  qed
qed

subsection \<open>Valid routines are drawn without an exception\<close>

lemma draw_item_ok:
  assumes "valid_item it"
  shows "\<exists>s'. draw_item cx cw s it = Inr s'"
proof -
  obtain ty where ty: "item_type it = Some ty"
    using assms by (auto simp: valid_item_def split: option.splits)
  show ?thesis
  proof (cases "recognized ty")
    case False
    then show ?thesis using ty by (simp add: draw_item_unknown)
  next
    case True
    then obtain nm where nm: "item_name it = Some nm"
      using assms ty by (auto simp: valid_item_def)
    have "ty = ''checkbox'' \<or> ty = ''number'' \<or> ty = ''scale'' \<or> ty = ''text''"
      using True by (simp add: recognized_def)
    then show ?thesis
      using ty nm by (elim disjE) (simp_all add: item_defs Let_def)
  qed
qed

lemma items_loop_ok:
  "list_all valid_item its \<Longrightarrow> \<exists>s'. items_loop cx cw my its s = Inr s'"
proof (induction its arbitrary: s)
  case Nil
  show ?case by simp
next
  case (Cons it its)
  then obtain s1 where "draw_item cx cw s it = Inr s1"
    using draw_item_ok [of it cx cw s] by auto
  then show ?case using Cons by simp
qed

lemma header_routine:
  "draw_header s = Inr s' \<Longrightarrow> self_routine s' = self_routine s"
  by (auto simp: draw_header_def Let_def split: option.splits)

lemma markers_routine: "self_routine (draw_alignment_markers s) = self_routine s"
  by (simp add: draw_alignment_markers_def Let_def)

lemma draw_ok:
  assumes "valid_routine (self_routine s)"
  shows "\<exists>s'. draw s = Inr s'"
proof -
  obtain s1 where s1: "draw_header (draw_alignment_markers s) = Inr s1"
    using assms
    by (auto simp: valid_routine_def draw_header_def Let_def markers_routine split: option.splits)
  have "self_routine s1 = self_routine s"
    using header_routine [OF s1] by (simp add: markers_routine)
  then have "list_all valid_item (sorted_items (self_routine s1))"
    using assms by (simp add: valid_routine_def sorted_items_def list_all_iff)
  then obtain s2 where "draw_items s1 = Inr s2"
    unfolding draw_items_def Let_def using items_loop_ok by blast
  then show ?thesis using s1 by (simp add: draw_def)
qed

subsection \<open>What a card appends to the canvas\<close>

lemma draw_issued:
  "\<exists>ext. issued (draw s) = ops (self_c s) @ ext \<and> filter page_level ext = [] \<and> ext \<noteq> [] \<and>
         cards_drawn ext = (if isl (draw s) then 0 else 1)"
proof -
  let ?m = "draw_alignment_markers s"
  obtain M where M: "ops (self_c ?m) = ops (self_c s) @ M" "filter page_level M = []"
    "M \<noteq> []" "cards_drawn M = 0"
    by (simp add: draw_alignment_markers_def Let_def cards_drawn_def)
  show ?thesis
  proof (cases "draw_header ?m")
    case (Inl a)
    then obtain e k where a: "a = (e, k)" by (cases a)
    have "\<exists>H. k = ops (self_c ?m) @ H \<and> filter page_level H = [] \<and> cards_drawn H = 0"
      using Inl a by (auto simp: draw_header_def Let_def cards_drawn_def split: option.splits)
    then obtain H where H: "k = ops (self_c ?m) @ H" "filter page_level H = []" "cards_drawn H = 0"
      by blast
    have "issued (draw s) = ops (self_c s) @ (M @ H)"
      using Inl a H M by (simp add: draw_def)
    moreover have "filter page_level (M @ H) = []" "M @ H \<noteq> []" "cards_drawn (M @ H) = 0"
      using M H by (simp_all add: cards_drawn_def)
    moreover have "isl (draw s)"
      using Inl by (simp add: draw_def)
    ultimately show ?thesis by (metis (full_types))
  next
    case (Inr s1)
    have "\<exists>H. ops (self_c s1) = ops (self_c ?m) @ H \<and> filter page_level H = [] \<and> cards_drawn H = 0"
      using Inr by (auto simp: draw_header_def Let_def cards_drawn_def split: option.splits)
    then obtain H where H: "ops (self_c s1) = ops (self_c ?m) @ H" "filter page_level H = []"
      "cards_drawn H = 0"
      by blast
    obtain I where I: "issued (draw_items s1) = ops (self_c s1) @ I" "list_all item_cmd I"
      unfolding draw_items_def Let_def using items_loop_issued by blast
    have I': "filter page_level I = []" "cards_drawn I = 0"
      using item_cmd_filter [OF I(2)] by (simp_all add: cards_drawn_def)
    show ?thesis
    proof (cases "draw_items s1")
      case (Inl b)
      then obtain e k where b: "b = (e, k)" by (cases b)
      have "issued (draw s) = ops (self_c s) @ (M @ H @ I)"
        using Inr Inl b I M H by (simp add: draw_def)
      moreover have "filter page_level (M @ H @ I) = []" "M @ H @ I \<noteq> []"
        "cards_drawn (M @ H @ I) = 0"
        using M H I' by (simp_all add: cards_drawn_def)
      moreover have "isl (draw s)"
        using Inr Inl by (simp add: draw_def)
      ultimately show ?thesis by (metis (full_types))
    next
      case (Inr s2)
      obtain V where V: "ops (self_c (draw_version s2)) = ops (self_c s2) @ V"
        "filter page_level V = []" "cards_drawn V = 1"
        by (simp add: draw_version_def cards_drawn_def)
      have "issued (draw s) = ops (self_c s) @ (M @ H @ I @ V)"
        using \<open>draw_header ?m = Inr s1\<close> Inr I M H V by (simp add: draw_def)
      moreover have "filter page_level (M @ H @ I @ V) = []" "M @ H @ I @ V \<noteq> []"
        "cards_drawn (M @ H @ I @ V) = 1"
        using M H I' V by (simp_all add: cards_drawn_def)
      moreover have "\<not> isl (draw s)"
        using \<open>draw_header ?m = Inr s1\<close> Inr by (simp add: draw_def)
      ultimately show ?thesis by (metis (full_types))
    qed
  qed
qed

lemma cards_drawn_append [simp]: "cards_drawn (xs @ ys) = cards_drawn xs + cards_drawn ys"
  by (simp add: cards_drawn_def)

lemma page_breaks_append [simp]: "page_breaks (xs @ ys) = page_breaks xs + page_breaks ys"
  by (simp add: page_breaks_def)

lemma no_page_level:
  "filter page_level ks = [] \<Longrightarrow> page_breaks ks = 0 \<and> Save \<notin> set ks"
  by (induction ks) (auto simp: page_breaks_def split: if_splits)

lemma draw_success_ops:
  assumes "draw s = Inr s'"
  shows "\<exists>ext. ops (self_c s') = ops (self_c s) @ ext \<and> filter page_level ext = [] \<and>
           cards_drawn ext = 1"
  using draw_issued [of s] assms by auto

lemma draw_failure_ops:
  assumes "draw s = Inl (e, k)"
  shows "\<exists>ext. k = ops (self_c s) @ ext \<and> filter page_level ext = [] \<and> ext \<noteq> []"
  using draw_issued [of s] assms by auto

lemma self_c_CardRenderer [simp]: "self_c (CardRenderer c x y w h r v) = c"
  by (simp add: CardRenderer_def)

subsection \<open>The loops of the driver\<close>

lemma cols_loop_success:
  assumes "cols_loop cfg r q row cs (c, i) = Inr (c', i')" and "i \<le> q"
  shows "\<exists>ext. ops c' = ops c @ ext \<and> filter page_level ext = [] \<and>
           int (cards_drawn ext) = i' - i \<and> i' = min q (i + int (length cs))"
  using assms
proof (induction cs arbitrary: c i)
  case Nil
  then show ?case by (simp add: cards_drawn_def)
next
  case (Cons col cs)
  show ?case
  proof (cases "i \<ge> q")
    case True
    then show ?thesis using Cons.prems by (simp add: cards_drawn_def)
  next
    case False
    let ?rd = "CardRenderer c (of_nat col * width cfg)
                 (PAGE_HEIGHT - (of_nat row + 1) * height cfg) (width cfg) (height cfg) r
                 (routine_version r)"
    from Cons.prems(1) False obtain rd' where rd': "draw ?rd = Inr rd'"
      and rest: "cols_loop cfg r q row cs (self_c rd', i + 1) = Inr (c', i')"
      by (auto simp: Let_def split: sum.splits)
    obtain e1 where e1: "ops (self_c rd') = ops c @ e1" "filter page_level e1 = []"
      "cards_drawn e1 = 1"
      using draw_success_ops [OF rd'] by auto
    from False have "i + 1 \<le> q" by simp
    from Cons.IH [OF rest this] obtain e2 where e2: "ops c' = ops (self_c rd') @ e2"
      "filter page_level e2 = []" "int (cards_drawn e2) = i' - (i + 1)"
      "i' = min q (i + 1 + int (length cs))"
      by auto
    have "ops c' = ops c @ (e1 @ e2)" using e1 e2 by simp
    moreover have "filter page_level (e1 @ e2) = []" using e1 e2 by simp
    moreover have "int (cards_drawn (e1 @ e2)) = i' - i" using e1 e2 by simp
    moreover have "i' = min q (i + int (length (col # cs)))" using e2 by simp
    ultimately show ?thesis by blast
  qed
qed

lemma cols_loop_failure:
  assumes "cols_loop cfg r q row cs (c, i) = Inl (e, k)"
  shows "\<exists>ext. k = ops c @ ext \<and> filter page_level ext = [] \<and> ext \<noteq> []"
  using assms
proof (induction cs arbitrary: c i)
  case Nil
  then show ?case by simp
next
  case (Cons col cs)
  let ?rd = "CardRenderer c (of_nat col * width cfg)
               (PAGE_HEIGHT - (of_nat row + 1) * height cfg) (width cfg) (height cfg) r
               (routine_version r)"
  from Cons.prems have nq: "\<not> i \<ge> q" by (auto split: if_splits)
  show ?case
  proof (cases "draw ?rd")
    case (Inl a)
    then have "draw ?rd = Inl (e, k)" using Cons.prems nq by (simp add: Let_def)
    from draw_failure_ops [OF this] show ?thesis by simp
  next
    case (Inr rd')
    then have rest: "cols_loop cfg r q row cs (self_c rd', i + 1) = Inl (e, k)"
      using Cons.prems nq by (simp add: Let_def)
    obtain e1 where e1: "ops (self_c rd') = ops c @ e1" "filter page_level e1 = []"
      using draw_success_ops [OF Inr] by auto
    from Cons.IH [OF rest] obtain e2 where e2: "k = ops (self_c rd') @ e2"
      "filter page_level e2 = []" "e2 \<noteq> []"
      by auto
    have "k = ops c @ (e1 @ e2)" using e1 e2 by simp
    moreover have "filter page_level (e1 @ e2) = []" "e1 @ e2 \<noteq> []" using e1 e2 by simp_all
    ultimately show ?thesis by blast
  qed
qed

lemma cols_loop_ok:
  assumes "valid_routine r"
  shows "\<exists>st'. cols_loop cfg r q row cs st = Inr st'"
proof (induction cs arbitrary: st)
  case Nil
  show ?case by simp
next
  case (Cons col cs)
  obtain c i where st: "st = (c, i)" by (cases st)
  let ?rd = "CardRenderer c (of_nat col * width cfg)
               (PAGE_HEIGHT - (of_nat row + 1) * height cfg) (width cfg) (height cfg) r
               (routine_version r)"
  have "valid_routine (self_routine ?rd)" using assms by (simp add: CardRenderer_def)
  then obtain rd' where "draw ?rd = Inr rd'" using draw_ok by blast
  then show ?case using Cons.IH [of "(self_c rd', i + 1)"] st by (simp add: Let_def)
qed

lemma rows_loop_success:
  assumes "rows_loop cfg r q rs (c, i) = Inr (c', i')" and "i \<le> q"
  shows "\<exists>ext. ops c' = ops c @ ext \<and> filter page_level ext = [] \<and>
           int (cards_drawn ext) = i' - i \<and> i' = min q (i + int (length rs) * int (cols cfg))"
  using assms
proof (induction rs arbitrary: c i)
  case Nil
  then show ?case by (simp add: cards_drawn_def)
next
  case (Cons row rs)
  from Cons.prems(1) obtain c1 i1
    where row: "cols_loop cfg r q row [0..<cols cfg] (c, i) = Inr (c1, i1)"
      and rest: "rows_loop cfg r q rs (c1, i1) = Inr (c', i')"
    by (auto split: sum.splits)
  from cols_loop_success [OF row Cons.prems(2)] obtain e1
    where e1: "ops c1 = ops c @ e1" "filter page_level e1 = []" "int (cards_drawn e1) = i1 - i"
      "i1 = min q (i + int (cols cfg))"
    by auto
  have "i1 \<le> q" using e1(4) by simp
  from Cons.IH [OF rest this] obtain e2
    where e2: "ops c' = ops c1 @ e2" "filter page_level e2 = []" "int (cards_drawn e2) = i' - i1"
      "i' = min q (i1 + int (length rs) * int (cols cfg))"
    by auto
  define m where "m = int (length rs) * int (cols cfg)"
  have m: "0 \<le> m" by (simp add: m_def)
  have len: "int (length (row # rs)) * int (cols cfg) = int (cols cfg) + m"
    by (simp add: m_def distrib_right)
  have "i' = min q (i + int (length (row # rs)) * int (cols cfg))"
    unfolding len using e1(4) e2(4) m unfolding m_def [symmetric] by (auto simp: min_def)
  moreover have "ops c' = ops c @ (e1 @ e2)" using e1 e2 by simp
  moreover have "filter page_level (e1 @ e2) = []" using e1 e2 by simp
  moreover have "int (cards_drawn (e1 @ e2)) = i' - i" using e1 e2 by simp
  ultimately show ?case by blast
qed

lemma rows_loop_failure:
  assumes "rows_loop cfg r q rs (c, i) = Inl (e, k)"
  shows "\<exists>ext. k = ops c @ ext \<and> filter page_level ext = [] \<and> ext \<noteq> []"
  using assms
proof (induction rs arbitrary: c i)
  case Nil
  then show ?case by simp
next
  case (Cons row rs)
  show ?case
  proof (cases "cols_loop cfg r q row [0..<cols cfg] (c, i)")
    case (Inl a)
    then have "cols_loop cfg r q row [0..<cols cfg] (c, i) = Inl (e, k)"
      using Cons.prems by simp
    from cols_loop_failure [OF this] show ?thesis .
  next
    case (Inr st1)
    obtain c1 i1 where st1: "st1 = (c1, i1)" by (cases st1)
    have rest: "rows_loop cfg r q rs (c1, i1) = Inl (e, k)"
      using Cons.prems Inr st1 by simp
    have "\<exists>e1. ops c1 = ops c @ e1 \<and> filter page_level e1 = []"
    proof (cases "i \<le> q")
      case True
      from cols_loop_success [OF Inr [unfolded st1] True] show ?thesis by auto
    next
      case False
      then have "cols_loop cfg r q row [0..<cols cfg] (c, i) = Inr (c, i)"
        by (cases "[0..<cols cfg]") simp_all
      then show ?thesis using Inr st1 by simp
    qed
    then obtain e1 where e1: "ops c1 = ops c @ e1" "filter page_level e1 = []" by blast
    from Cons.IH [OF rest] obtain e2 where e2: "k = ops c1 @ e2"
      "filter page_level e2 = []" "e2 \<noteq> []"
      by auto
    have "k = ops c @ (e1 @ e2)" using e1 e2 by simp
    moreover have "filter page_level (e1 @ e2) = []" "e1 @ e2 \<noteq> []" using e1 e2 by simp_all
    ultimately show ?thesis by blast
  qed
qed

lemma rows_loop_ok:
  assumes "valid_routine r"
  shows "\<exists>st'. rows_loop cfg r q rs st = Inr st'"
proof (induction rs arbitrary: st)
  case Nil
  show ?case by simp
next
  case (Cons row rs)
  obtain st1 where "cols_loop cfg r q row [0..<cols cfg] st = Inr st1"
    using cols_loop_ok [OF assms] by blast
  then show ?case using Cons.IH [of st1] by simp
qed

lemma ops_draw_cut_guides: "ops (draw_cut_guides c cfg) = ops c @ cut_guide_cmds cfg"
  by (simp add: draw_cut_guides_def cut_guide_cmds_def)

lemma cut_guide_cmds_counts:
  "cards_drawn (cut_guide_cmds cfg) = 0" "page_breaks (cut_guide_cmds cfg) = 0"
  "Save \<notin> set (cut_guide_cmds cfg)" "cut_guide_cmds cfg \<noteq> []"
  by (auto simp: cut_guide_cmds_def cards_drawn_def page_breaks_def filter_empty_conv)

lemma draw_page_success:
  assumes "draw_page cfg r q page (c, i) = Inr (c', i')" and "i \<le> q"
  shows "\<exists>ext. ops c' = ops c @ page_start page @ cut_guide_cmds cfg @ ext \<and>
           filter page_level ext = [] \<and> int (cards_drawn ext) = i' - i \<and>
           i' = min q (i + int (rows cfg) * int (cols cfg))"
proof -
  let ?c2 = "draw_cut_guides (if page > 0 then showPage c else c) cfg"
  have c2: "ops ?c2 = ops c @ page_start page @ cut_guide_cmds cfg"
    by (simp add: ops_draw_cut_guides showPage_def page_start_def)
  have "rows_loop cfg r q [0..<rows cfg] (?c2, i) = Inr (c', i')"
    using assms(1) by (cases "page > 0") (simp_all add: draw_page_def Let_def)
  from rows_loop_success [OF this assms(2)] show ?thesis
    unfolding c2 by simp
qed


lemma draw_page_ok:
  assumes "valid_routine r"
  shows "\<exists>st'. draw_page cfg r q page st = Inr st'"
  unfolding draw_page_def Let_def using rows_loop_ok [OF assms] by blast

lemma page_start_counts:
  "cards_drawn (page_start page) = 0" "Save \<notin> set (page_start page)"
  "page_breaks (page_start page) = (if page > 0 then 1 else 0)"
  by (simp_all add: page_start_def cards_drawn_def page_breaks_def)

lemma pages_loop_success:
  assumes "pages_loop cfg r q ps (c, i) = Inr (c', i')" and "i \<le> q"
  shows "\<exists>ext. ops c' = ops c @ ext \<and> Save \<notin> set ext \<and> int (cards_drawn ext) = i' - i \<and>
           page_breaks ext = length (filter (\<lambda>p. 0 < p) ps) \<and>
           i' = min q (i + int (length ps) * (int (rows cfg) * int (cols cfg)))"
  using assms
proof (induction ps arbitrary: c i)
  case Nil
  then show ?case by (simp add: cards_drawn_def page_breaks_def)
next
  case (Cons page ps)
  from Cons.prems(1) obtain c1 i1
    where pg: "draw_page cfg r q page (c, i) = Inr (c1, i1)"
      and rest: "pages_loop cfg r q ps (c1, i1) = Inr (c', i')"
    by (auto split: sum.splits)
  from draw_page_success [OF pg Cons.prems(2)] obtain e1
    where e1: "ops c1 = ops c @ page_start page @ cut_guide_cmds cfg @ e1"
      "filter page_level e1 = []" "int (cards_drawn e1) = i1 - i"
      "i1 = min q (i + int (rows cfg) * int (cols cfg))"
    by auto
  have "i1 \<le> q" using e1(4) by simp
  from Cons.IH [OF rest this] obtain e2
    where e2: "ops c' = ops c1 @ e2" "Save \<notin> set e2" "int (cards_drawn e2) = i' - i1"
      "page_breaks e2 = length (filter (\<lambda>p. 0 < p) ps)"
      "i' = min q (i1 + int (length ps) * (int (rows cfg) * int (cols cfg)))"
    by auto
  let ?ext = "page_start page @ cut_guide_cmds cfg @ e1 @ e2"
  define k where "k = int (rows cfg) * int (cols cfg)"
  define m where "m = int (length ps) * k"
  have m: "0 \<le> m" by (simp add: m_def k_def)
  have len: "int (length (page # ps)) * k = k + m"
    by (simp add: m_def distrib_right)
  have "i' = min q (i + int (length (page # ps)) * k)"
    unfolding len using e1(4) e2(5) m unfolding k_def [symmetric] m_def [symmetric]
    by (auto simp: min_def)
  then have "i' = min q (i + int (length (page # ps)) * (int (rows cfg) * int (cols cfg)))"
    by (simp add: k_def)
  moreover have "ops c' = ops c @ ?ext" using e1 e2 by simp
  moreover have "Save \<notin> set ?ext"
    using e2 no_page_level [OF e1(2)] cut_guide_cmds_counts page_start_counts by simp
  moreover have "int (cards_drawn ?ext) = i' - i"
    using e1 e2 cut_guide_cmds_counts page_start_counts by simp
  moreover have "page_breaks ?ext = length (filter (\<lambda>p. 0 < p) (page # ps))"
    using e2 no_page_level [OF e1(2)] cut_guide_cmds_counts page_start_counts by simp
  ultimately show ?case by blast
qed



lemma pages_loop_ok:
  assumes "valid_routine r"
  shows "\<exists>st'. pages_loop cfg r q ps st = Inr st'"
proof (induction ps arbitrary: st)
  case Nil
  show ?case by simp
next
  case (Cons page ps)
  obtain st1 where "draw_page cfg r q page st = Inr st1"
    using draw_page_ok [OF assms] by blast
  then show ?case using Cons.IH [of st1] by simp
qed

subsection \<open>Page arithmetic and the layout table\<close>

lemma pages_ceiling:
  assumes "0 < (c::int)"
  shows "\<lceil>rat_of_int q / rat_of_int c\<rceil> = (q + c - 1) div c"
proof -
  define t where "t = (q + c - 1) div c"
  have eq: "c * t + (q + c - 1) mod c = q + c - 1"
    unfolding t_def by (rule mult_div_mod_eq)
  have m: "0 \<le> (q + c - 1) mod c" "(q + c - 1) mod c < c"
    using assms by simp_all
  have lo: "(t - 1) * c < q" and hi: "q \<le> t * c"
    using eq m by (simp_all add: algebra_simps)
  have c: "0 < rat_of_int c" using assms by simp
  have "rat_of_int ((t - 1) * c) < rat_of_int q"
    using lo by (simp only: of_int_less_iff)
  then have 1: "rat_of_int t - 1 < rat_of_int q / rat_of_int c"
    using c by (simp add: pos_less_divide_eq)
  have "rat_of_int q \<le> rat_of_int (t * c)"
    using hi by (simp only: of_int_le_iff)
  then have 2: "rat_of_int q / rat_of_int c \<le> rat_of_int t"
    using c by (simp add: pos_divide_le_eq)
  show ?thesis
    unfolding t_def [symmetric] using 1 2 by (rule ceiling_unique)
qed

lemma count_later_pages: "length (filter (\<lambda>p. 0 < p) [0..<n]) = n - 1"
  by (induction n) auto

lemma LAYOUTS_cases:
  assumes "LAYOUTS layout = Some cfg"
  shows "cfg = \<lparr>cols = 2, rows = 2, width = 306, height = 396\<rparr> \<and> layout = ''quarter'' \<or>
         cfg = \<lparr>cols = 1, rows = 2, width = 612, height = 396\<rparr> \<and> layout = ''half'' \<or>
         cfg = \<lparr>cols = 1, rows = 1, width = 612, height = 792\<rparr> \<and> layout = ''full''"
  using assms by (auto simp: LAYOUTS_def inch_def split: if_splits)

lemma pages_cover:
  assumes "0 < (c::int)" and "0 < q"
  shows "0 < (q + c - 1) div c" and "q \<le> (q + c - 1) div c * c"
proof -
  define t where "t = (q + c - 1) div c"
  have eq: "c * t + (q + c - 1) mod c = q + c - 1"
    unfolding t_def by (rule mult_div_mod_eq)
  have m: "0 \<le> (q + c - 1) mod c" "(q + c - 1) mod c < c"
    using assms by simp_all
  show hi: "q \<le> (q + c - 1) div c * c"
    unfolding t_def [symmetric] using eq m by (simp add: algebra_simps)
  show "0 < (q + c - 1) div c"
    using assms by (simp add: pos_imp_zdiv_pos_iff)
qed

lemma generate_pdf_Inr:
  assumes L: "LAYOUTS layout = Some cfg" and q: "0 < quantity"
    and g: "generate_pdf r layout quantity output_path = Inr (c, res)"
  shows "int (pages_emitted (ops c)) = (quantity + int (cols cfg * rows cfg) - 1) div int (cols cfg * rows cfg) \<and>
         int (cards_drawn (ops c)) = quantity \<and>
         res = (if truthy output_path
                then Summary \<lparr>s_layout = layout, s_cards_per_page = int (cols cfg * rows cfg),
                       s_pages_generated = (quantity + int (cols cfg * rows cfg) - 1) div int (cols cfg * rows cfg),
                       s_cards_generated = quantity\<rparr>
                else DocumentBytes (ops c))"
proof -
  define cpp where "cpp = int (cols cfg) * int (rows cfg)"
  define tp where "tp = (quantity + cpp - 1) div cpp"
  define c0 where "c0 = (if truthy output_path then Canvas (File (the output_path)) else Canvas Buffer)"
  have cpp: "0 < cpp"
    using LAYOUTS_cases [OF L] by (auto simp: cpp_def)
  have tp: "0 < tp" "quantity \<le> tp * cpp"
    unfolding tp_def using pages_cover [OF cpp q] by simp_all
  have c0: "ops c0 = []" by (simp add: c0_def Canvas_def)
  obtain c' i' where loop: "pages_loop cfg r quantity [0..<nat tp] (c0, 0) = Inr (c', i')"
    and c: "c = save c'"
    and res: "res = (if truthy output_path
                then Summary \<lparr>s_layout = layout, s_cards_per_page = cpp,
                       s_pages_generated = tp, s_cards_generated = quantity\<rparr>
                else DocumentBytes (ops (save c')))"
    using g L
    by (auto simp: generate_pdf_def Let_def cpp_def [symmetric] tp_def [symmetric]
        c0_def [symmetric] split: sum.splits if_splits)
  have "(0::int) \<le> quantity" using q by simp
  from pages_loop_success [OF loop this] obtain ext
    where ext: "ops c' = ext" "int (cards_drawn ext) = i'"
      "page_breaks ext = length (filter (\<lambda>p. 0 < p) [0..<nat tp])"
      "i' = min quantity (int (length [0..<nat tp]) * (int (rows cfg) * int (cols cfg)))"
    using c0 by auto
  have "int (length [0..<nat tp]) * (int (rows cfg) * int (cols cfg)) = tp * cpp"
    using tp(1) by (simp add: cpp_def mult.commute)
  then have i': "i' = quantity" using ext(4) tp(2) by simp
  have pb: "page_breaks ext = nat tp - 1"
    using ext(3) by (simp add: count_later_pages)
  have ops: "ops c = ext @ [Save]" using c ext(1) by (simp add: save_def)
  have "int (pages_emitted (ops c)) = tp"
    using pb tp(1) by (simp add: ops pages_emitted_def page_breaks_def)
  moreover have "int (cards_drawn (ops c)) = quantity"
    using ext(2) i' by (simp add: ops cards_drawn_def)
  moreover have "int (cols cfg * rows cfg) = cpp" by (simp add: cpp_def)
  ultimately show ?thesis
    using res c by (simp add: tp_def)
qed

lemma generate_pdf_ok:
  assumes L: "LAYOUTS layout = Some cfg" and v: "valid_routine r"
  shows "\<exists>c res. generate_pdf r layout quantity output_path = Inr (c, res)"
proof -
  define cpp where "cpp = int (cols cfg) * int (rows cfg)"
  define tp where "tp = (quantity + cpp - 1) div cpp"
  define c0 where "c0 = (if truthy output_path then Canvas (File (the output_path)) else Canvas Buffer)"
  obtain st' where "pages_loop cfg r quantity [0..<nat tp] (c0, 0) = Inr st'"
    using pages_loop_ok [OF v] by blast
  then show ?thesis
    using L
    by (cases st') (auto simp: generate_pdf_def Let_def cpp_def [symmetric] tp_def [symmetric]
        c0_def [symmetric])
qed

subsection \<open>The driver on another target\<close>

lemma retarget_pair: "retarget d (c, i) = (c\<lparr>dest := d\<rparr>, i)"
  by (simp add: retarget_def)

lemma draw_CardRenderer_dest:
  "draw (CardRenderer (c\<lparr>dest := d\<rparr>) x y w h r v) =
   map_sum id (\<lambda>s. s\<lparr>self_c := (self_c s)\<lparr>dest := d\<rparr>\<rparr>) (draw (CardRenderer c x y w h r v))"
proof -
  have "CardRenderer (c\<lparr>dest := d\<rparr>) x y w h r v =
        (CardRenderer c x y w h r v)\<lparr>self_c := (self_c (CardRenderer c x y w h r v))\<lparr>dest := d\<rparr>\<rparr>"
    by (simp add: CardRenderer_def)
  then show ?thesis by (simp only: draw_dest)
qed

lemma cols_loop_dest:
  "cols_loop cfg r q row cs (retarget d st) = map_sum id (retarget d) (cols_loop cfg r q row cs st)"
proof (induction cs arbitrary: st)
  case Nil
  show ?case by simp
next
  case (Cons col cs)
  obtain c i where st: "st = (c, i)" by (cases st)
  let ?rd = "CardRenderer c (of_nat col * width cfg)
               (PAGE_HEIGHT - (of_nat row + 1) * height cfg) (width cfg) (height cfg) r
               (routine_version r)"
  show ?case
  proof (cases "draw ?rd")
    case (Inl a)
    then show ?thesis
      by (simp add: st retarget_pair Let_def draw_CardRenderer_dest id_def)
  next
    case (Inr rd')
    have "cols_loop cfg r q row cs (retarget d (self_c rd', i + 1)) =
          map_sum id (retarget d) (cols_loop cfg r q row cs (self_c rd', i + 1))"
      by (rule Cons.IH)
    then show ?thesis
      using Inr by (simp add: st retarget_pair Let_def draw_CardRenderer_dest id_def)
  qed
qed

lemma rows_loop_dest:
  "rows_loop cfg r q rs (retarget d st) = map_sum id (retarget d) (rows_loop cfg r q rs st)"
proof (induction rs arbitrary: st)
  case Nil
  show ?case by simp
next
  case (Cons row rs)
  show ?case
    by (cases "cols_loop cfg r q row [0..<cols cfg] st") (simp_all add: cols_loop_dest Cons.IH)
qed

lemma draw_page_dest:
  "draw_page cfg r q page (retarget d st) = map_sum id (retarget d) (draw_page cfg r q page st)"
proof -
  have "(draw_cut_guides (if page > 0 then showPage (fst (retarget d st)) else fst (retarget d st)) cfg,
         snd (retarget d st)) =
        retarget d (draw_cut_guides (if page > 0 then showPage (fst st) else fst st) cfg, snd st)"
    by (simp add: retarget_def draw_cut_guides_def showPage_def emits_dest)
  then show ?thesis
    unfolding draw_page_def Let_def by (simp only: rows_loop_dest)
qed

lemma pages_loop_dest:
  "pages_loop cfg r q ps (retarget d st) = map_sum id (retarget d) (pages_loop cfg r q ps st)"
proof (induction ps arbitrary: st)
  case Nil
  show ?case by simp
next
  case (Cons page ps)
  show ?case
    by (cases "draw_page cfg r q page st") (simp_all add: draw_page_dest Cons.IH)
qed

subsection \<open>Inks across items\<close>

lemma draw_item_keeps_black:
  assumes "draw_item cx cw s it = Inr s'"
    and "fill_color (self_c s) = black" and "stroke_color (self_c s) = black"
  shows "fill_color (self_c s') = black \<and> stroke_color (self_c s') = black"
proof (cases "item_type it")
  case None
  then show ?thesis using assms by (simp add: draw_item_def)
next
  case (Some ty)
  show ?thesis
  proof (cases "recognized ty")
    case True
    then show ?thesis using draw_item_colors [OF assms(1) Some] by simp
  next
    case False
    then show ?thesis using assms Some by (simp add: draw_item_unknown)
  qed
qed

lemma items_loop_keeps_black:
  assumes "items_loop cx cw my its s = Inr s'"
    and "fill_color (self_c s) = black" and "stroke_color (self_c s) = black"
  shows "fill_color (self_c s') = black \<and> stroke_color (self_c s') = black"
  using assms
proof (induction its arbitrary: s)
  case Nil
  then show ?case by simp
next
  case (Cons it its)
  show ?case
  proof (cases "self_current_y s < my")
    case True
    then show ?thesis using Cons.prems by simp
  next
    case False
    then obtain s1 where s1: "draw_item cx cw s it = Inr s1"
      and rest: "items_loop cx cw my its s1 = Inr s'"
      using Cons.prems(1) by (auto split: sum.splits)
    from draw_item_keeps_black [OF s1 Cons.prems(2,3)] Cons.IH [OF rest] show ?thesis
      by simp
  qed
qed

lemma header_black:
  assumes "draw_header s = Inr s1"
  shows "fill_color (self_c s1) = black \<and> stroke_color (self_c s1) = black"
  using assms
  by (auto simp: draw_header_def Let_def fill_color_def stroke_color_def
      fill_after_append stroke_after_append split: option.splits)

lemma valid_workout: "valid_routine workout"
  by (simp add: valid_routine_def workout_def routine_items_def valid_item_def)

lemma header_ok:
  assumes "r_name (self_routine s) \<noteq> None"
  shows "\<exists>s1. draw_header s = Inr s1"
  using assms by (auto simp: draw_header_def Let_def split: option.splits)

subsection \<open>Routines that differ in items of unknown kind\<close>

lemma rendered_map_routine:
  "rendered (map_sum id (\<lambda>s. s\<lparr>self_routine := r\<rparr>) res) = rendered res"
  by (cases res) (simp_all add: rendered_def)

lemma sorted_known_items:
  "sorted_items (known_items r) = filter (\<lambda>it. \<not> unknown_kind it) (sorted_items r)"
  by (simp add: sorted_items_def known_items_def routine_items_def filter_sort)

lemma draw_items_routine:
  assumes "filter (\<lambda>it. \<not> unknown_kind it) (sorted_items r') =
           filter (\<lambda>it. \<not> unknown_kind it) (sorted_items (self_routine s))"
  shows "draw_items (s\<lparr>self_routine := r'\<rparr>) =
         map_sum id (\<lambda>s. s\<lparr>self_routine := r'\<rparr>) (draw_items s)"
proof -
  have "items_loop cx cw my (sorted_items r') s =
        items_loop cx cw my (sorted_items (self_routine s)) s" for cx cw my
    using items_loop_skip_unknown [of cx cw my "sorted_items r'" s]
      items_loop_skip_unknown [of cx cw my "sorted_items (self_routine s)" s] assms
    by simp
  then show ?thesis
    by (simp add: draw_items_def Let_def items_loop_routine)
qed

lemma unknown_photo: "unknown_kind photo_item"
  by (simp add: unknown_kind_def photo_item_def recognized_def)

lemma draw_routine_swap:
  assumes n: "r_name r' = r_name (self_routine s)"
    and f: "filter (\<lambda>it. \<not> unknown_kind it) (sorted_items r') =
            filter (\<lambda>it. \<not> unknown_kind it) (sorted_items (self_routine s))"
  shows "draw (s\<lparr>self_routine := r'\<rparr>) = map_sum id (\<lambda>t. t\<lparr>self_routine := r'\<rparr>) (draw s)"
proof -
  let ?U = "\<lambda>t. t\<lparr>self_routine := r'\<rparr>"
  let ?m = "draw_alignment_markers s"
  have m: "draw_alignment_markers (?U s) = ?U ?m"
    by (simp add: draw_alignment_markers_def Let_def)
  have h: "draw_header (?U ?m) = map_sum id ?U (draw_header ?m)"
    using n by (simp add: draw_header_def Let_def markers_routine split: option.splits)
  have v: "draw_version (?U t) = ?U (draw_version t)" for t
    by (simp add: draw_version_def)
  show ?thesis
  proof (cases "draw_header ?m")
    case (Inl a)
    then show ?thesis by (simp add: draw_def m h)
  next
    case (Inr s1)
    have "self_routine s1 = self_routine s"
      using header_routine [OF Inr] by (simp add: markers_routine)
    then have i: "draw_items (?U s1) = map_sum id ?U (draw_items s1)"
      using draw_items_routine [of r' s1] f by simp
    show ?thesis
      by (cases "draw_items s1") (simp_all add: draw_def m h Inr i v)
  qed
qed

subsection \<open>The overflow check\<close>

lemma items_loop_prefix:
  "items_loop cx cw my its s =
   draw_each cx cw (take (items_reached my (self_current_y s) its) its) s"
proof (induction its arbitrary: s)
  case Nil
  show ?case by simp
next
  case (Cons it its)
  show ?case
  proof (cases "self_current_y s < my")
    case True
    then show ?thesis by simp
  next
    case False
    show ?thesis
    proof (cases "draw_item cx cw s it")
      case (Inl a)
      then show ?thesis using False by simp
    next
      case (Inr s')
      then show ?thesis
        using False Cons.IH [of s'] draw_item_cursor [OF Inr] by simp
    qed
  qed
qed



lemma items_reached_all:
  assumes "sum_list (map advance (butlast its)) \<le> cy - my"
  shows "items_reached my cy its = length its"
  using assms
proof (induction its arbitrary: cy)
  case Nil
  show ?case by simp
next
  case (Cons it its)
  have "0 \<le> sum_list (map advance (butlast (it # its)))"
    by (rule sum_list_nonneg) (auto simp: advance_nonneg)
  then have ge: "\<not> cy < my" using Cons.prems by simp
  show ?case
  proof (cases "its = []")
    case True
    then show ?thesis using ge by simp
  next
    case False
    then have "sum_list (map advance (butlast its)) \<le> (cy - advance it) - my"
      using Cons.prems by simp
    from Cons.IH [OF this] show ?thesis using ge by simp
  qed
qed


subsection \<open>The sorted items\<close>

lemma sorted_items_stable:
  "filter (\<lambda>it. order_key it = k) (sorted_items r) =
   filter (\<lambda>it. order_key it = k) (routine_items r)"
  unfolding sorted_items_def by (rule sort_key_stable)

lemma sorted_items_unique:
  assumes m: "mset xs = mset (routine_items r)"
    and st: "\<forall>k. filter (\<lambda>it. order_key it = k) xs =
                 filter (\<lambda>it. order_key it = k) (routine_items r)"
  shows "sort_key order_key xs = sorted_items r"
proof (rule properties_for_sort_key)
  show "mset (sorted_items r) = mset xs"
    using m by (simp add: sorted_items_def)
  show "sorted (map order_key (sorted_items r))"
    by (simp add: sorted_items_def)
  fix k
  have "(\<lambda>x. order_key k = order_key x) = (\<lambda>it. order_key it = order_key k)"
    by (auto simp: fun_eq_iff)
  then show "filter (\<lambda>x. order_key k = order_key x) (sorted_items r) =
             filter (\<lambda>x. order_key k = order_key x) xs"
    using st sorted_items_stable [of "order_key k" r] by simp
qed

subsection \<open>Counting the items drawn\<close>

lemma draw_item_labels:
  assumes "draw_item cx cw s it = Inr s'"
  shows "labels_drawn (ops (self_c s')) =
         labels_drawn (ops (self_c s)) + (if unknown_kind it then 0 else 1)"
  using assms
  by (auto simp: item_defs unknown_kind_def recognized_def labels_drawn_def Let_def upt_5
      text_lines_2 split: option.splits if_splits)

lemma draw_each_labels:
  assumes "draw_each cx cw its s = Inr s'"
  shows "labels_drawn (ops (self_c s')) =
         labels_drawn (ops (self_c s)) + length (filter (\<lambda>it. \<not> unknown_kind it) its)"
  using assms
proof (induction its arbitrary: s)
  case Nil
  then show ?case by simp
next
  case (Cons it its)
  then obtain s1 where s1: "draw_item cx cw s it = Inr s1"
    and rest: "draw_each cx cw its s1 = Inr s'"
    by (auto split: sum.splits)
  from Cons.IH [OF rest] draw_item_labels [OF s1] show ?case by simp
qed


subsection \<open>The calls of a page\<close>

lemma cols_loop_done:
  "q \<le> i \<Longrightarrow> cols_loop cfg r q row cs (c, i) = Inr (c, i)"
  by (cases cs) simp_all

lemma rows_loop_done:
  "q \<le> i \<Longrightarrow> rows_loop cfg r q rs (c, i) = Inr (c, i)"
  by (induction rs) (simp_all add: cols_loop_done)

lemma rows_loop_calls:
  "\<exists>ext. page_issued (rows_loop cfg r q rs (c, i)) = ops c @ ext \<and> filter page_level ext = []"
proof (cases "rows_loop cfg r q rs (c, i)")
  case (Inl a)
  obtain e k where a: "a = (e, k)" by (cases a)
  from rows_loop_failure [OF Inl [unfolded a]] show ?thesis
    using Inl a by (auto simp: page_issued_def)
next
  case (Inr st)
  obtain c' i' where st: "st = (c', i')" by (cases st)
  show ?thesis
  proof (cases "i \<le> q")
    case True
    from rows_loop_success [OF Inr [unfolded st] True] show ?thesis
      using Inr st by (auto simp: page_issued_def)
  next
    case False
    then show ?thesis by (simp add: rows_loop_done page_issued_def)
  qed
qed

subsection \<open>Items without a type\<close>




section \<open>The claims\<close>

subsection \<open>Layout selector: thresholds\<close>

text \<open>
  C1. For every item count \<open>n\<close> (non-negative or not), \<open>suggest_layout\<close> returns
  \<open>quarter\<close> exactly when \<open>n \<le> 8\<close>, \<open>half\<close> exactly when \<open>9 \<le> n \<le> 15\<close>, and \<open>full\<close>
  exactly when \<open>n > 15\<close>. The function is total and has no error result.
\<close>

theorem suggest_layout_thresholds:
  "(suggest_layout n = ''quarter'' \<longleftrightarrow> n \<le> 8) \<and>
   (suggest_layout n = ''half'' \<longleftrightarrow> 9 \<le> n \<and> n \<le> 15) \<and>
   (suggest_layout n = ''full'' \<longleftrightarrow> n > 15)"
  by (simp add: suggest_layout_def)

subsection \<open>Pagination driver: pages and cards\<close>

text \<open>
  C2. For every valid layout name and every quantity above zero: generation of a valid
  routine returns; and whenever generation returns, the canvas holds exactly
  \<open>\<lceil>quantity / cardsPerPage\<rceil>\<close> pages and exactly \<open>quantity\<close> cards (one version stamp
  each), whether or not the quantity is a multiple of the cards per page, and the summary
  reports the same numbers.
\<close>

theorem generate_pdf_counts:
  assumes "LAYOUTS layout = Some cfg" and "0 < quantity"
  shows "(valid_routine r \<longrightarrow>
            (\<exists>c res. generate_pdf r layout quantity output_path = Inr (c, res))) \<and>
         (\<forall>c res. generate_pdf r layout quantity output_path = Inr (c, res) \<longrightarrow>
            int (pages_emitted (ops c)) =
              \<lceil>rat_of_int quantity / rat_of_nat (cols cfg * rows cfg)\<rceil> \<and>
            int (cards_drawn (ops c)) = quantity \<and>
            (\<forall>s. res = Summary s \<longrightarrow>
               s_cards_per_page s = int (cols cfg * rows cfg) \<and>
               s_pages_generated s =
                 \<lceil>rat_of_int quantity / rat_of_nat (cols cfg * rows cfg)\<rceil> \<and>
               s_cards_generated s = quantity))"
proof -
  define cpp where "cpp = int (cols cfg * rows cfg)"
  have cpp: "0 < cpp"
    using LAYOUTS_cases [OF assms(1)] by (auto simp: cpp_def)
  have ceil: "\<lceil>rat_of_int quantity / rat_of_nat (cols cfg * rows cfg)\<rceil> =
              (quantity + cpp - 1) div cpp"
    using pages_ceiling [OF cpp, of quantity] by (simp add: cpp_def)
  have ok: "valid_routine r \<Longrightarrow> \<exists>c res. generate_pdf r layout quantity output_path = Inr (c, res)"
    using generate_pdf_ok [OF assms(1)] by blast
  have counts: "int (pages_emitted (ops c)) = (quantity + cpp - 1) div cpp \<and>
                int (cards_drawn (ops c)) = quantity \<and>
                (\<forall>s. res = Summary s \<longrightarrow>
                   s_cards_per_page s = cpp \<and>
                   s_pages_generated s = (quantity + cpp - 1) div cpp \<and>
                   s_cards_generated s = quantity)"
    if "generate_pdf r layout quantity output_path = Inr (c, res)" for c res
    using generate_pdf_Inr [OF assms that] unfolding cpp_def [symmetric]
    by (auto split: if_splits)
  show ?thesis
    unfolding ceil cpp_def [symmetric] using ok counts by blast
qed

theorem generate_pdf_counts_witness:
  "\<exists>c s. generate_pdf workout ''quarter'' 5 (Some ''cards.pdf'') = Inr (c, Summary s) \<and>
         pages_emitted (ops c) = 2 \<and> cards_drawn (ops c) = 5 \<and>
         s_cards_per_page s = 4 \<and> s_pages_generated s = 2 \<and> s_cards_generated s = 5"
proof -
  let ?cfg = "\<lparr>cols = 2, rows = 2, width = 4.25 * inch, height = 5.5 * inch\<rparr>"
  have L: "LAYOUTS ''quarter'' = Some ?cfg"
    by (simp add: LAYOUTS_def)
  have v: "valid_routine workout"
    by (simp add: valid_routine_def workout_def routine_items_def valid_item_def)
  have q: "(0::int) < 5" by simp
  have ceil: "\<lceil>rat_of_int 5 / rat_of_nat (cols ?cfg * rows ?cfg)\<rceil> = 2"
    by (simp add: ceiling_eq_iff)
  note inst = generate_pdf_counts [OF L q, of workout "Some ''cards.pdf''", unfolded ceil]
  from inst v obtain c res
    where g: "generate_pdf workout ''quarter'' 5 (Some ''cards.pdf'') = Inr (c, res)"
    by blast
  have "\<exists>s. res = Summary s"
    using g L by (auto simp: generate_pdf_def Let_def truthy_def split: sum.splits)
  then obtain s where s: "res = Summary s" by blast
  from inst g s have "pages_emitted (ops c) = 2 \<and> cards_drawn (ops c) = 5 \<and>
      s_cards_per_page s = 4 \<and> s_pages_generated s = 2 \<and> s_cards_generated s = 5"
    by auto
  then show ?thesis using g s by blast
qed

subsection \<open>Card renderer: item order\<close>

text \<open>
  C3. The loop of \<open>_draw_items\<close> runs over the items sorted by their \<open>order\<close> field, a
  missing \<open>order\<close> counting as 0. That list is ascending in the key, holds the same items
  as the input, and keeps the input's relative order among items of equal key; every
  rearrangement of the input that keeps the relative order of equal keys gives the same
  list. \<open>_draw_items\<close> is the dispatch, item by item from the head of that list, of exactly
  the items the overflow check lets through; and when the cumulative advance of all items
  but the last is within the content height, it is the dispatch of the whole sorted list.
\<close>

theorem items_drawn_in_order:
  "sorted (map order_key (sorted_items r)) \<and>
   mset (sorted_items r) = mset (routine_items r) \<and>
   (\<forall>k. filter (\<lambda>it. order_key it = k) (sorted_items r) =
        filter (\<lambda>it. order_key it = k) (routine_items r)) \<and>
   (item_order it = None \<longrightarrow> order_key it = 0) \<and>
   (mset xs = mset (routine_items r) \<and>
    (\<forall>k. filter (\<lambda>it. order_key it = k) xs = filter (\<lambda>it. order_key it = k) (routine_items r))
      \<longrightarrow> sort_key order_key xs = sorted_items r) \<and>
   (self_routine s = r \<longrightarrow>
      draw_items s =
        draw_each (self_x s + MARGIN + MARKER_RADIUS * 2)
          (self_width s - (2 * MARGIN) - (MARKER_RADIUS * 4))
          (take (items_reached (self_y s + MARGIN + 20) (self_current_y s) (sorted_items r))
             (sorted_items r)) s) \<and>
   (self_routine s = r \<and>
    sum_list (map advance (butlast (sorted_items r))) \<le> content_height s \<longrightarrow>
      draw_items s =
        draw_each (self_x s + MARGIN + MARKER_RADIUS * 2)
          (self_width s - (2 * MARGIN) - (MARKER_RADIUS * 4)) (sorted_items r) s)"
proof (intro conjI impI allI)
  show "sorted (map order_key (sorted_items r))"
    by (simp add: sorted_items_def)
  show "mset (sorted_items r) = mset (routine_items r)"
    by (simp add: sorted_items_def)
  show "filter (\<lambda>it. order_key it = k) (sorted_items r) =
        filter (\<lambda>it. order_key it = k) (routine_items r)" for k
    by (rule sorted_items_stable)
  show "order_key it = 0" if "item_order it = None"
    using that by (simp add: order_key_def)
  show "sort_key order_key xs = sorted_items r"
    if "mset xs = mset (routine_items r) \<and>
        (\<forall>k. filter (\<lambda>it. order_key it = k) xs =
             filter (\<lambda>it. order_key it = k) (routine_items r))"
    using that sorted_items_unique by blast
  show "draw_items s =
          draw_each (self_x s + MARGIN + MARKER_RADIUS * 2)
            (self_width s - (2 * MARGIN) - (MARKER_RADIUS * 4))
            (take (items_reached (self_y s + MARGIN + 20) (self_current_y s) (sorted_items r))
               (sorted_items r)) s"
    if "self_routine s = r"
    using that by (simp add: draw_items_def Let_def items_loop_prefix)
  show "draw_items s =
          draw_each (self_x s + MARGIN + MARKER_RADIUS * 2)
            (self_width s - (2 * MARGIN) - (MARKER_RADIUS * 4)) (sorted_items r) s"
    if a: "self_routine s = r \<and>
           sum_list (map advance (butlast (sorted_items r))) \<le> content_height s"
  proof -
    have "items_reached (self_y s + MARGIN + 20) (self_current_y s) (sorted_items r) =
          length (sorted_items r)"
      using a by (intro items_reached_all) (simp add: content_height_def)
    then show ?thesis
      using a by (simp add: draw_items_def Let_def items_loop_prefix)
  qed
qed

theorem items_drawn_in_order_witness:
  "sorted_items shuffled = in_order \<and>
   sort_key order_key in_order = in_order \<and>
   draw_items (after_header shuffled) = draw_each 26 254 in_order (after_header shuffled) \<and>
   strings_drawn (drop (length (ops (self_c (after_header shuffled))))
                    (issued (draw_items (after_header shuffled)))) =
     [''Warmup'', ''Pushups'', ''Stretch'']"
proof -
  have so: "sorted_items shuffled = in_order" by code_simp
  have m: "mset in_order = mset (routine_items shuffled)"
    by (simp add: in_order_def shuffled_def routine_items_def)
  have st: "\<forall>k. filter (\<lambda>it. order_key it = k) in_order =
                 filter (\<lambda>it. order_key it = k) (routine_items shuffled)"
    by (simp add: in_order_def shuffled_def routine_items_def mk_item_def order_key_def)
  have r: "self_routine (after_header shuffled) = shuffled" by code_simp
  have fits: "sum_list (map advance (butlast in_order)) \<le> content_height (after_header shuffled)"
    by code_simp
  have g: "self_x (after_header shuffled) + MARGIN + MARKER_RADIUS * 2 = 26"
    "self_width (after_header shuffled) - (2 * MARGIN) - (MARKER_RADIUS * 4) = 254"
    by code_simp+
  have names: "strings_drawn (drop (length (ops (self_c (after_header shuffled))))
                    (issued (draw_items (after_header shuffled)))) =
     [''Warmup'', ''Pushups'', ''Stretch'']"
    by code_simp
  from items_drawn_in_order [where r = shuffled and xs = in_order
      and s = "after_header shuffled"] m st r fits names
  show ?thesis
    unfolding so g by blast
qed

subsection \<open>Card renderer: overflow\<close>




subsection \<open>Card renderer: no gray ink leaks\<close>

text \<open>
  C5. Whatever the inks were before it, an item of one of the four kinds (the kinds that
  use gray ink among them) leaves both the fill colour and the stroke colour black when it
  has been drawn. And on a card, after the header and after the items loop has run over
  any list of items (so at the start of every item, and at the version stamp, which
  follows the loop), the fill colour and the stroke colour in effect are black.
\<close>

theorem no_gray_leak:
  "(item_type it = Some ty \<and> recognized ty \<and> draw_item cx cw s it = Inr s' \<longrightarrow>
      fill_color (self_c s') = black \<and> stroke_color (self_c s') = black) \<and>
   (draw_header (draw_alignment_markers rd) = Inr s1 \<and> items_loop cx cw my its s1 = Inr s2 \<longrightarrow>
      fill_color (self_c s2) = black \<and> stroke_color (self_c s2) = black)"
proof (intro conjI impI)
  assume "item_type it = Some ty \<and> recognized ty \<and> draw_item cx cw s it = Inr s'"
  then show "fill_color (self_c s') = black" "stroke_color (self_c s') = black"
    using draw_item_colors [of cx cw s it s' ty] by simp_all
next
  assume a: "draw_header (draw_alignment_markers rd) = Inr s1 \<and>
             items_loop cx cw my its s1 = Inr s2"
  then have "fill_color (self_c s1) = black \<and> stroke_color (self_c s1) = black"
    using header_black by blast
  with a show "fill_color (self_c s2) = black" "stroke_color (self_c s2) = black"
    using items_loop_keeps_black [of cx cw my its s1 s2] by simp_all
qed

theorem no_gray_leak_witness:
  "(\<exists>s'. draw_item 26 254 (quarter_card workout) weight_item = Inr s' \<and>
          fill_color (self_c s') = black \<and> stroke_color (self_c s') = black) \<and>
   (\<exists>s1 s2. draw_header (draw_alignment_markers (quarter_card workout)) = Inr s1 \<and>
            draw_items s1 = Inr s2 \<and>
            fill_color (self_c s2) = black \<and> stroke_color (self_c s2) = black)"
proof
  have ty: "item_type weight_item = Some ''number''" "recognized ''number''"
    by (simp_all add: weight_item_def recognized_def)
  have "valid_item weight_item"
    by (simp add: valid_item_def weight_item_def)
  then obtain s' where s': "draw_item 26 254 (quarter_card workout) weight_item = Inr s'"
    using draw_item_ok by blast
  with ty no_gray_leak [of weight_item "''number''" 26 254 "quarter_card workout" s']
  show "\<exists>s'. draw_item 26 254 (quarter_card workout) weight_item = Inr s' \<and>
          fill_color (self_c s') = black \<and> stroke_color (self_c s') = black"
    by blast
next
  let ?m = "draw_alignment_markers (quarter_card workout)"
  have r: "self_routine ?m = workout"
    by (simp add: markers_routine quarter_card_def CardRenderer_def)
  then have "r_name (self_routine ?m) \<noteq> None" by (simp add: workout_def)
  then obtain s1 where s1: "draw_header ?m = Inr s1" using header_ok by blast
  have "self_routine s1 = workout" using header_routine [OF s1] r by simp
  then have "list_all valid_item (sorted_items (self_routine s1))"
    using valid_workout by (simp add: valid_routine_def sorted_items_def list_all_iff)
  then obtain s2 where s2: "draw_items s1 = Inr s2"
    unfolding draw_items_def Let_def using items_loop_ok by blast
  from s1 s2 [unfolded draw_items_def Let_def]
    no_gray_leak [where rd = "quarter_card workout" and ?s1.0 = s1 and ?s2.0 = s2]
  have "fill_color (self_c s2) = black \<and> stroke_color (self_c s2) = black"
    by blast
  with s1 s2 show "\<exists>s1 s2. draw_header ?m = Inr s1 \<and> draw_items s1 = Inr s2 \<and>
            fill_color (self_c s2) = black \<and> stroke_color (self_c s2) = black"
    by blast
qed

subsection \<open>Page compositor: cut guides\<close>

text \<open>
  C6. For every layout configuration and every page, whether the page completes or a card
  on it raises, the calls of the page are: the page break (on every page but the first),
  then gray stroke, line width one half and the dash pattern, then one vertical line from
  the bottom to the top of the page at \<open>x = col * width\<close> for each \<open>col\<close> from 1 to
  \<open>cols - 1\<close>, then one horizontal line across the page at
  \<open>y = PAGE_HEIGHT - row * height\<close> for each \<open>row\<close> from 1 to \<open>rows - 1\<close>, then the reset
  to a solid line, and only then the calls of the cards, none of which sets a dash pattern
  or breaks the page.
\<close>

theorem cut_guides_before_cards:
  "\<exists>cards.
     page_issued (draw_page cfg r q page (c, i)) =
       ops c @ (if 0 < page then [ShowPage] else []) @
       [SetStrokeColor GRAY, SetLineWidth 0.5, SetDash [6, 3]] @
       map (\<lambda>col. Line (of_nat col * width cfg) 0 (of_nat col * width cfg) PAGE_HEIGHT)
         [1..<cols cfg] @
       map (\<lambda>row. Line 0 (PAGE_HEIGHT - of_nat row * height cfg)
                    PAGE_WIDTH (PAGE_HEIGHT - of_nat row * height cfg))
         [1..<rows cfg] @
       [SetDash []] @ cards \<and>
     filter page_level cards = [] \<and>
     length [1..<cols cfg] = cols cfg - 1 \<and> length [1..<rows cfg] = rows cfg - 1"
proof -
  let ?c2 = "draw_cut_guides (if page > 0 then showPage c else c) cfg"
  have c2: "ops ?c2 = ops c @ (if 0 < page then [ShowPage] else []) @ cut_guide_cmds cfg"
    by (simp add: ops_draw_cut_guides showPage_def)
  have "draw_page cfg r q page (c, i) = rows_loop cfg r q [0..<rows cfg] (?c2, i)"
    by (cases "page > 0") (simp_all add: draw_page_def Let_def)
  then obtain cards
    where "page_issued (draw_page cfg r q page (c, i)) = ops ?c2 @ cards"
      "filter page_level cards = []"
    using rows_loop_calls [of cfg r q "[0..<rows cfg]" ?c2 i] by auto
  then show ?thesis
    unfolding c2 cut_guide_cmds_def by auto
qed

subsection \<open>Missing required fields\<close>




subsection \<open>Card renderer: items of unknown kind\<close>

text \<open>
  C8. An item whose \<open>type\<close> is present and is none of the four kinds is skipped: the
  dispatch returns the renderer as it was, so it raises nothing and issues no call. The
  other items are drawn all the same: \<open>_draw_items\<close> leaves the same calls, cursor and
  exception as it does on the routine without its items of unknown kind.
\<close>

theorem unknown_kind_skipped:
  "(unknown_kind it \<longrightarrow> draw_item cx cw s it = Inr s) \<and>
   rendered (draw_items s) =
     rendered (draw_items (s\<lparr>self_routine := known_items (self_routine s)\<rparr>))"
proof
  show "unknown_kind it \<longrightarrow> draw_item cx cw s it = Inr s"
    by (simp add: draw_item_unknown_kind)
next
  have "filter (\<lambda>it. \<not> unknown_kind it) (sorted_items (known_items (self_routine s))) =
        filter (\<lambda>it. \<not> unknown_kind it) (sorted_items (self_routine s))"
    by (simp add: sorted_known_items)
  from draw_items_routine [OF this]
  show "rendered (draw_items s) =
        rendered (draw_items (s\<lparr>self_routine := known_items (self_routine s)\<rparr>))"
    by (simp add: rendered_map_routine)
qed

theorem unknown_kind_skipped_witness:
  "draw_item 26 254 (quarter_card workout_photo) photo_item = Inr (quarter_card workout_photo) \<and>
   rendered (draw_items (quarter_card workout_photo)) =
     rendered (draw_items (quarter_card workout))"
proof -
  have k: "known_items workout_photo = workout"
    by (simp add: known_items_def workout_photo_def routine_items_def workout_def
        unknown_kind_def photo_item_def recognized_def)
  have "(quarter_card workout_photo)\<lparr>self_routine := workout\<rparr> = quarter_card workout"
    by (simp add: quarter_card_def CardRenderer_def routine_version_def workout_photo_def
        workout_def)
  moreover have "self_routine (quarter_card workout_photo) = workout_photo"
    by (simp add: quarter_card_def CardRenderer_def)
  ultimately show ?thesis
    using unknown_kind_skipped [of photo_item 26 254 "quarter_card workout_photo"] unknown_photo k
    by simp
qed

subsection \<open>Output modes\<close>

text \<open>
  C9. For every routine, layout and quantity, \<open>generate_pdf\<close> issues the same sequence of
  canvas calls (and raises the same exception, if any) whatever the output path is: with
  no path, where it returns the document's bytes, and with a path, where it writes the
  file and returns the summary.
\<close>

theorem output_modes_same_calls:
  "calls (generate_pdf r layout quantity p1) = calls (generate_pdf r layout quantity p2)"
proof (cases "LAYOUTS layout")
  case None
  then show ?thesis by (simp add: generate_pdf_def calls_def)
next
  case (Some cfg)
  define tp where
    "tp = (quantity + int (cols cfg) * int (rows cfg) - 1) div (int (cols cfg) * int (rows cfg))"
  define base where "base = pages_loop cfg r quantity [0..<nat tp] (Canvas Buffer, 0)"
  have one: "calls (generate_pdf r layout quantity p) =
             (case base of Inl (e, k) \<Rightarrow> (Some e, k) | Inr (c, i) \<Rightarrow> (None, ops c @ [Save]))"
    for p
  proof -
    define t where "t = (if truthy p then File (the p) else Buffer)"
    have start: "(if truthy p then Canvas (File (the p)) else Canvas Buffer, 0) =
                 retarget t (Canvas Buffer, 0)"
      by (simp add: retarget_def Canvas_def t_def)
    have loop: "pages_loop cfg r quantity [0..<nat tp]
                  (if truthy p then Canvas (File (the p)) else Canvas Buffer, 0) =
                map_sum id (retarget t) base"
      unfolding base_def start by (rule pages_loop_dest)
    show ?thesis
    proof (cases base)
      case (Inl a)
      then show ?thesis
        using Some loop
        by (cases a) (simp add: generate_pdf_def Let_def tp_def [symmetric] calls_def)
    next
      case (Inr st)
      then show ?thesis
        using Some loop
        by (cases st)
           (simp add: generate_pdf_def Let_def tp_def [symmetric] calls_def retarget_pair save_def)
    qed
  qed
  show ?thesis by (simp only: one)
qed

subsection \<open>Card renderer: an unknown item takes no space\<close>

text \<open>
  C10. Dispatching on an item of unknown kind leaves the cursor, the inks and the call
  stream as they were; and drawing a whole card (markers, header, items, version stamp)
  for a routine leaves the same calls and the same cursor as drawing it for the routine
  with that item removed.
\<close>

theorem unknown_item_takes_no_space:
  assumes "unknown_kind u" and "r_items r = Some (xs @ u # ys)"
  shows "(\<exists>s'. draw_item cx cw s u = Inr s' \<and> self_current_y s' = self_current_y s \<and>
            fill_color (self_c s') = fill_color (self_c s) \<and>
            stroke_color (self_c s') = stroke_color (self_c s) \<and>
            ops (self_c s') = ops (self_c s)) \<and>
         rendered (draw (CardRenderer c x y w h (r\<lparr>r_items := Some (xs @ ys)\<rparr>) v)) =
         rendered (draw (CardRenderer c x y w h r v))"
proof
  show "\<exists>s'. draw_item cx cw s u = Inr s' \<and> self_current_y s' = self_current_y s \<and>
            fill_color (self_c s') = fill_color (self_c s) \<and>
            stroke_color (self_c s') = stroke_color (self_c s) \<and>
            ops (self_c s') = ops (self_c s)"
    using draw_item_unknown_kind [OF assms(1), of cx cw s] by simp
next
  let ?r' = "r\<lparr>r_items := Some (xs @ ys)\<rparr>"
  let ?s = "CardRenderer c x y w h r v"
  have f: "filter (\<lambda>it. \<not> unknown_kind it) (sorted_items ?r') =
           filter (\<lambda>it. \<not> unknown_kind it) (sorted_items (self_routine ?s))"
    using assms by (simp add: sorted_items_def routine_items_def filter_sort CardRenderer_def)
  have n: "r_name ?r' = r_name (self_routine ?s)"
    by (simp add: CardRenderer_def)
  have "CardRenderer c x y w h ?r' v = ?s\<lparr>self_routine := ?r'\<rparr>"
    by (simp add: CardRenderer_def)
  then show "rendered (draw (CardRenderer c x y w h ?r' v)) = rendered (draw ?s)"
    using draw_routine_swap [OF n f] by (simp add: rendered_map_routine)
qed

theorem unknown_item_takes_no_space_witness:
  "rendered (draw (quarter_card workout)) = rendered (draw (quarter_card workout_photo))"
proof -
  have 1: "r_items workout_photo = Some ([] @ photo_item # routine_items workout)"
    by (simp add: workout_photo_def)
  have 2: "workout_photo\<lparr>r_items := Some ([] @ routine_items workout)\<rparr> = workout"
    by (simp add: workout_photo_def workout_def routine_items_def)
  have 3: "routine_version workout_photo = routine_version workout"
    by (simp add: workout_photo_def routine_version_def)
  show ?thesis
    using unknown_item_takes_no_space [OF unknown_photo 1, of _ _ _ "Canvas Buffer" 0 396 306 396 "routine_version workout"]
    unfolding 2 quarter_card_def 3 by simp
qed

end
